theory Spec2Isabelle
  imports Complex_Main "HOL-Library.Word" "HOL-Library.Sublist"
begin

unbundle bit_operations_syntax

section \<open>JavaScript strings\<close>

text \<open>
  A JavaScript string is a sequence of UTF-16 code units: \<open>s.length\<close> counts code units and
  \<open>s.slice(k)\<close> drops code units. String literals of the source are written through \<open>js\<close>,
  which maps an ASCII literal to its code units.
\<close>

type_synonym jsstring = "16 word list"

definition js :: "string \<Rightarrow> jsstring" where
  "js s = map (\<lambda>c. of_nat (of_char c)) s"

text \<open>
  \<open>s.includes(p)\<close>: does \<open>p\<close> occur in \<open>s\<close> as a contiguous run of code units.
\<close>

fun startsWith :: "jsstring \<Rightarrow> jsstring \<Rightarrow> bool" where
  "startsWith s [] = True"
| "startsWith [] (p # ps) = False"
| "startsWith (c # cs) (p # ps) = (c = p \<and> startsWith cs ps)"

fun includes_js :: "jsstring \<Rightarrow> jsstring \<Rightarrow> bool" where
  "includes_js [] p = (p = [])"
| "includes_js (c # cs) p = (startsWith (c # cs) p \<or> includes_js cs p)"

text \<open>
  \<open>String.prototype.toLowerCase\<close> is a built-in of the language, not code of the repository.
  The functions that call it take it as the parameter \<open>lower\<close>; \<open>asciiLower\<close> is the
  built-in restricted to ASCII input, used to evaluate them on concrete strings.
\<close>

definition asciiLower :: "jsstring \<Rightarrow> jsstring" where
  "asciiLower s = map (\<lambda>c. if 65 \<le> c \<and> c \<le> 90 then c + 32 else c) s"

section \<open>Retry policy (executor.ts)\<close>

record RetryConfig =
  maxAttempts :: nat
  backoffMs :: nat
  retryOn :: "jsstring list option"
  skipOn :: "jsstring list option"

text \<open>
  The two \<open>for (const pattern of ...)\<close> loops of \<open>shouldRetry\<close> have the same body up to the
  value returned on a match; \<open>matchesAny\<close> is that loop: it stops at the first pattern with
  \<open>error.toLowerCase().includes(pattern.toLowerCase())\<close>.
\<close>

fun matchesAny :: "(jsstring \<Rightarrow> jsstring) \<Rightarrow> jsstring \<Rightarrow> jsstring list \<Rightarrow> bool" where
  "matchesAny lower error [] = False"
| "matchesAny lower error (pattern # rest) =
     (if includes_js (lower error) (lower pattern) then True else matchesAny lower error rest)"

definition shouldRetry :: "(jsstring \<Rightarrow> jsstring) \<Rightarrow> jsstring \<Rightarrow> RetryConfig option \<Rightarrow> bool" where
  "shouldRetry lower error retry =
     (case retry of
        None \<Rightarrow> False
      | Some r \<Rightarrow>
          if (case skipOn r of
                None \<Rightarrow> False
              | Some ps \<Rightarrow> length ps > 0 \<and> matchesAny lower error ps)
          then False
          else if (case retryOn r of None \<Rightarrow> True | Some ps \<Rightarrow> length ps = 0)
          then True
          else (case retryOn r of None \<Rightarrow> False | Some ps \<Rightarrow> matchesAny lower error ps))"

text \<open>
  The specification's wording: a pattern matches an error when it occurs in it as a substring,
  case-insensitively, that is, after both are lower-cased.
\<close>

definition ciSubstring :: "(jsstring \<Rightarrow> jsstring) \<Rightarrow> jsstring \<Rightarrow> jsstring \<Rightarrow> bool" where
  "ciSubstring lower pattern error = sublist (lower pattern) (lower error)"

definition patternsOf :: "jsstring list option \<Rightarrow> jsstring list" where
  "patternsOf ps = (case ps of None \<Rightarrow> [] | Some l \<Rightarrow> l)"

section \<open>Output truncation (executor.ts)\<close>

text \<open>
  \<open>output.split("\n")\<close> and \<open>lines.join("\n")\<close>; the line feed is code unit 10. A split
  always yields at least one line.
\<close>

fun splitLines :: "jsstring \<Rightarrow> jsstring list" where
  "splitLines [] = [[]]"
| "splitLines (c # cs) =
     (if c = 10 then [] # splitLines cs
      else (case splitLines cs of [] \<Rightarrow> [[c]] | l # ls \<Rightarrow> (c # l) # ls))"

fun joinLines :: "jsstring list \<Rightarrow> jsstring" where
  "joinLines [] = []"
| "joinLines [l] = l"
| "joinLines (l # m # ls) = l @ 10 # joinLines (m # ls)"

text \<open>
  \<open>Buffer.byteLength(s, "utf-8")\<close>: the number of bytes of the UTF-8 encoding of a UTF-16
  string. A code unit below \<open>0x80\<close> takes one byte, one below \<open>0x800\<close> two, a surrogate pair
  four, and any other code unit (a lone surrogate is encoded as U+FFFD) three.
\<close>

definition isHighSurrogate :: "16 word \<Rightarrow> bool" where
  "isHighSurrogate c = (0xD800 \<le> c \<and> c \<le> 0xDBFF)"

definition isLowSurrogate :: "16 word \<Rightarrow> bool" where
  "isLowSurrogate c = (0xDC00 \<le> c \<and> c \<le> 0xDFFF)"

fun byteLength :: "jsstring \<Rightarrow> nat" where
  "byteLength [] = 0"
| "byteLength [c] = (if c < 0x80 then 1 else if c < 0x800 then 2 else 3)"
| "byteLength (c # d # cs) =
     (if c < 0x80 then 1 + byteLength (d # cs)
      else if c < 0x800 then 2 + byteLength (d # cs)
      else if isHighSurrogate c \<and> isLowSurrogate d then 4 + byteLength cs
      else 3 + byteLength (d # cs))"

text \<open>
  The loop \<open>while (Buffer.byteLength(result) > maxBytes && result.length > 0)
  result = result.slice(Math.floor(result.length / 2))\<close>. On a string of one code unit
  \<open>slice(0)\<close> returns the string itself, so the loop does not end when that code unit alone
  exceeds \<open>maxBytes\<close>: the loop is a partial function, \<open>None\<close> when it runs forever.
\<close>

partial_function (option) halveLoop :: "int \<Rightarrow> jsstring \<Rightarrow> jsstring option" where
  "halveLoop maxBytes result =
     (if int (byteLength result) > maxBytes \<and> length result > 0
      then halveLoop maxBytes (drop (length result div 2) result)
      else Some result)"

declare halveLoop.simps [code]

text \<open>
  \<open>truncateOutput\<close> in its two stages. \<open>lineStage\<close> is the truncation by lines
  (\<open>lines.splice(0, lines.length - maxLines)\<close> drops the leading lines) followed by the join;
  it returns the joined text and the value of the local \<open>truncated\<close> at that point.
  \<open>byteStage\<close> is the truncation by bytes, which sets \<open>truncated\<close> when it runs and leaves it
  as it was otherwise.
\<close>

definition lineStage :: "int \<Rightarrow> jsstring \<Rightarrow> jsstring \<times> bool" where
  "lineStage maxLines output =
     (let lines = splitLines output in
      if int (length lines) > maxLines
      then (joinLines (drop (nat (int (length lines) - maxLines)) lines), True)
      else (joinLines lines, False))"

definition byteStage :: "int \<Rightarrow> jsstring \<Rightarrow> bool \<Rightarrow> (jsstring \<times> bool) option" where
  "byteStage maxBytes result truncated =
     (if int (byteLength result) > maxBytes
      then (case halveLoop maxBytes result of None \<Rightarrow> None | Some r \<Rightarrow> Some (r, True))
      else Some (result, truncated))"

definition truncateOutput :: "jsstring \<Rightarrow> int \<Rightarrow> int \<Rightarrow> (jsstring \<times> bool) option" where
  "truncateOutput output maxBytes maxLines =
     (case lineStage maxLines output of
        (result, truncated) \<Rightarrow> byteStage maxBytes result truncated)"

text \<open>
  Modelled from the spec: \<open>types.ts\<close>, which declares the default limits, is not among the
  sources. The specification (4.3.1) gives 50 KiB and 2000 lines, and the tests of the
  repository expect \<open>MAX_OUTPUT_BYTES = 50 * 1024\<close> and \<open>MAX_OUTPUT_LINES = 2000\<close>.
\<close>

definition MAX_OUTPUT_BYTES :: int where
  "MAX_OUTPUT_BYTES = 50 * 1024"

definition MAX_OUTPUT_LINES :: int where
  "MAX_OUTPUT_LINES = 2000"

section \<open>Resource guards (executor.ts)\<close>

record ResourceLimits =
  maxMemoryMB :: "nat option"
  maxDurationMs :: "nat option"
  maxConcurrentToolCalls :: "nat option"
  enforceLimits :: bool

text \<open>
  A limit is used in conditions such as \<open>if (resourceLimits?.maxMemoryMB && ...)\<close>: a
  number is truthy when it is present and not zero.
\<close>

definition truthyNum :: "nat option \<Rightarrow> bool" where
  "truthyNum n = (case n of None \<Rightarrow> False | Some k \<Rightarrow> k \<noteq> 0)"

text \<open>
  Class \<open>ToolCallTracker\<close>: the number of live tool calls, the limit, and whether the
  tracker's own abort controller has fired. \<open>startTool\<close> returns the new tracker and the
  boolean of the source.
\<close>

record ToolCallTracker =
  currentCalls :: nat
  trackerLimit :: nat
  trackerAborted :: bool

definition newToolCallTracker :: "nat \<Rightarrow> ToolCallTracker" where
  "newToolCallTracker limit = \<lparr>currentCalls = 0, trackerLimit = limit, trackerAborted = False\<rparr>"

definition startTool :: "ToolCallTracker \<Rightarrow> ToolCallTracker \<times> bool" where
  "startTool t =
     (let t1 = t\<lparr>currentCalls := currentCalls t + 1\<rparr> in
      if trackerLimit t1 > 0 \<and> currentCalls t1 > trackerLimit t1
      then (t1\<lparr>trackerAborted := True\<rparr>, False)
      else (t1, True))"

definition endTool :: "ToolCallTracker \<Rightarrow> ToolCallTracker" where
  "endTool t = t\<lparr>currentCalls := currentCalls t - 1\<rparr>"

text \<open>
  Class \<open>MemoryMonitor\<close>: the limit, whether the interval timer is set (\<open>intervalId\<close> is
  not null), and whether the monitor's abort controller has fired. \<open>monitorTick\<close> is the
  callback of \<open>setInterval\<close>, which runs every 5000 ms while the timer is set, with the heap
  usage in bytes that \<open>process.memoryUsage()\<close> reports at that moment:
  \<open>usedMB > maxMemoryMB\<close> with \<open>usedMB = heapUsed / (1024 * 1024)\<close>.
\<close>

record MemoryMonitor =
  monitorLimitMB :: nat
  intervalSet :: bool
  monitorAborted :: bool

definition newMemoryMonitor :: "nat \<Rightarrow> MemoryMonitor" where
  "newMemoryMonitor limit = \<lparr>monitorLimitMB = limit, intervalSet = False, monitorAborted = False\<rparr>"

definition monitorStart :: "MemoryMonitor \<Rightarrow> MemoryMonitor" where
  "monitorStart m = (if monitorLimitMB m \<le> 0 then m else m\<lparr>intervalSet := True\<rparr>)"

definition monitorStop :: "MemoryMonitor \<Rightarrow> MemoryMonitor" where
  "monitorStop m = m\<lparr>intervalSet := False\<rparr>"

definition monitorTick :: "nat \<Rightarrow> MemoryMonitor \<Rightarrow> MemoryMonitor" where
  "monitorTick heapUsed m =
     (if intervalSet m
      then (if heapUsed > monitorLimitMB m * (1024 * 1024)
            then monitorStop (m\<lparr>monitorAborted := True\<rparr>)
            else m)
      else m)"

section \<open>Subprocess executor (executor.ts)\<close>

datatype Status = Pending | Running | Completed | Failed | Aborted

text \<open>
  \<open>TaskProgress\<close> with the fields that \<open>runAgentOnce\<close> changes while the child runs. The
  identity fields (\<open>id\<close>, \<open>name\<close>, \<open>task\<close>, \<open>model\<close>) never change, and \<open>durationMs\<close> is
  a reading of the clock; they are left out, as are the usage counters.
\<close>

record TaskProgress =
  status :: Status
  recentTools :: "(jsstring \<times> jsstring) list"
  recentOutput :: "jsstring list"
  toolCount :: nat
  currentTool :: "jsstring option"
  currentToolArgs :: "jsstring option"

datatype ContentPart = TextPart jsstring | OtherPart

record Message =
  role :: jsstring
  content :: "ContentPart list"
  stopReason :: "jsstring option"
  errorMessage :: "jsstring option"

text \<open>
  A line of the child's standard output after \<open>JSON.parse\<close>. \<open>MessageEnd\<close> and
  \<open>ToolResultEnd\<close> carry the \<open>message\<close> field when it is truthy. \<open>ToolExecutionStart\<close> carries
  \<open>event.toolName\<close> and the string that \<open>extractToolArgsPreview\<close> returns for the event's
  arguments. \<open>Ignored\<close> is a blank line, a line that does not parse, or an event of another
  type.
\<close>

datatype Event =
    MessageEnd "Message option"
  | ToolExecutionStart "jsstring option" jsstring
  | ToolExecutionEnd
  | ToolResultEnd "Message option"
  | Ignored

text \<open>A string is truthy when it is present and not empty.\<close>

definition truthyStr :: "jsstring option \<Rightarrow> bool" where
  "truthyStr s = (case s of None \<Rightarrow> False | Some t \<Rightarrow> t \<noteq> [])"

text \<open>
  \<open>text.trim()\<close> is truthy when the text has a code unit that is neither white space nor a
  line terminator of ECMAScript.
\<close>

definition isWhiteSpace :: "16 word \<Rightarrow> bool" where
  "isWhiteSpace c =
     (c \<in> {9, 10, 11, 12, 13, 32, 160, 0x1680, 0x2028, 0x2029, 0x202F, 0x205F, 0x3000, 0xFEFF}
      \<or> (0x2000 \<le> c \<and> c \<le> 0x200A))"

definition trimTruthy :: "jsstring \<Rightarrow> bool" where
  "trimTruthy s = (\<not> list_all isWhiteSpace s)"

text \<open>
  The body of the loop over the parts of an assistant message: a text part that is not blank
  is cut to 100 code units with \<open>"..."\<close> appended, pushed on \<open>recentOutput\<close>, and the oldest
  entry is shifted out when there are more than five.
\<close>

definition outputPreview :: "jsstring \<Rightarrow> jsstring" where
  "outputPreview t = (if length t > 100 then take 100 t @ js ''...'' else t)"

definition pushOutput :: "jsstring list \<Rightarrow> ContentPart \<Rightarrow> jsstring list" where
  "pushOutput q part =
     (case part of
        TextPart t \<Rightarrow>
          if trimTruthy t
          then (let q1 = q @ [outputPreview t] in if length q1 > 5 then tl q1 else q1)
          else q
      | OtherPart \<Rightarrow> q)"

definition pushTool :: "(jsstring \<times> jsstring) list \<Rightarrow> jsstring \<times> jsstring \<Rightarrow> (jsstring \<times> jsstring) list" where
  "pushTool q entry = (let q1 = q @ [entry] in if length q1 > 10 then tl q1 else q1)"

text \<open>\<open>String(n)\<close> for an integer.\<close>

fun showNat :: "nat \<Rightarrow> jsstring" where
  "showNat n = (if n < 10 then [48 + of_nat n] else showNat (n div 10) @ [48 + of_nat (n mod 10)])"

definition showInt :: "int \<Rightarrow> jsstring" where
  "showInt i = (if i < 0 then 45 # showNat (nat (- i)) else showNat (nat i))"

text \<open>
  \<open>TaskResult\<close> with the fields decided by the exit code and the abort handling; \<open>output\<close>
  and \<open>truncated\<close> come from \<open>truncateOutput\<close> above.
\<close>

record TaskResult =
  resExitCode :: int
  resStderr :: jsstring
  resAborted :: bool
  resError :: "jsstring option"

text \<open>
  The state of one \<open>runAgentOnce\<close> call: the progress record, the messages, \<open>stderr\<close>,
  \<open>apiError\<close>, \<open>toolUsage\<close>, \<open>wasAborted\<close>, the guards built from the resource limits, whether
  the caller's signal and the duration signal have aborted, whether the child process has
  exited, the snapshots passed to \<open>onProgress\<close> so far (oldest first), and the result that
  the call returns, once the promise around the child is resolved.
\<close>

record RunState =
  progress :: TaskProgress
  messages :: "Message list"
  stderr :: jsstring
  apiError :: jsstring
  toolUsage :: "jsstring \<rightharpoonup> nat"
  wasAborted :: bool
  memoryMonitor :: "MemoryMonitor option"
  toolCallTracker :: "ToolCallTracker option"
  signalFired :: bool
  durationFired :: bool
  childExited :: bool
  emitted :: "TaskProgress list"
  taskResult :: "TaskResult option"

definition emitProgress :: "RunState \<Rightarrow> RunState" where
  "emitProgress st = st\<lparr>emitted := emitted st @ [progress st]\<rparr>"

definition processLine :: "Event \<Rightarrow> RunState \<Rightarrow> RunState" where
  "processLine ev st =
     (case ev of
        MessageEnd (Some msg) \<Rightarrow>
          (let st1 = st\<lparr>messages := messages st @ [msg]\<rparr> in
           if role msg = js ''assistant''
           then (let st2 = (if stopReason msg = Some (js ''error'') \<and> truthyStr (errorMessage msg)
                            then st1\<lparr>apiError := the (errorMessage msg)\<rparr> else st1);
                     p = progress st2
                 in emitProgress
                      (st2\<lparr>progress := p\<lparr>recentOutput := foldl pushOutput (recentOutput p) (content msg)\<rparr>\<rparr>))
           else st1)
      | MessageEnd None \<Rightarrow> st
      | ToolExecutionStart toolName preview \<Rightarrow>
          emitProgress
            (st\<lparr>progress := (progress st)\<lparr>currentTool := toolName, currentToolArgs := Some preview\<rparr>\<rparr>)
      | ToolExecutionEnd \<Rightarrow>
          (let p = progress st;
               st1 = (if truthyStr (currentTool p)
                      then (let tool = the (currentTool p);
                                args = (if truthyStr (currentToolArgs p) then the (currentToolArgs p) else [])
                            in st\<lparr>progress := p\<lparr>recentTools := pushTool (recentTools p) (tool, args),
                                                  toolCount := toolCount p + 1\<rparr>,
                                  toolUsage := (toolUsage st)(tool \<mapsto>
                                     (case toolUsage st tool of None \<Rightarrow> 0 | Some k \<Rightarrow> k) + 1)\<rparr>)
                      else st)
           in emitProgress
                (st1\<lparr>progress := (progress st1)\<lparr>currentTool := None, currentToolArgs := None\<rparr>\<rparr>))
      | ToolResultEnd (Some msg) \<Rightarrow> emitProgress (st\<lparr>messages := messages st @ [msg]\<rparr>)
      | ToolResultEnd None \<Rightarrow> st
      | Ignored \<Rightarrow> st)"

text \<open>
  The options of a call that matter here. \<open>signal\<close> is \<open>None\<close> when the caller passes no
  abort signal, and otherwise tells whether the signal is already aborted at the call.
\<close>

record ExecutorOptions =
  signal :: "bool option"
  retry :: "RetryConfig option"
  resourceLimits :: "ResourceLimits option"

text \<open>
  What the Node.js runtime delivers to the handlers that \<open>runAgentOnce\<close> registers, in the
  order of delivery: a complete line of the child's standard output (the last, unterminated
  line is delivered with the close), a chunk of its standard error, the exit of the child
  process, the close of its streams with the exit code, a failure to spawn it, the abort of
  the caller's signal, the timer of \<open>createDurationAbortSignal\<close>, and a period of 5000 ms of
  the memory monitor's interval timer together with the heap usage at that moment. The
  handlers and the listener on the caller's signal stay registered after the promise is
  resolved, and the duration timer is not cleared, so events keep arriving then. A line that
  holds \<open>null\<close> makes the handler throw before it changes anything; for the state it is as
  an ignored line whose chunk loses its remaining lines.
\<close>

datatype ProcEvent =
    StdoutLine Event
  | StderrData jsstring
  | ProcExited
  | ProcClose "int option"
  | ProcError
  | SignalAbort
  | DurationElapsed
  | MemoryInterval nat

definition limitOf :: "ExecutorOptions \<Rightarrow> (ResourceLimits \<Rightarrow> nat option) \<Rightarrow> nat option" where
  "limitOf opts field = (case resourceLimits opts of None \<Rightarrow> None | Some l \<Rightarrow> field l)"

definition enforced :: "ExecutorOptions \<Rightarrow> bool" where
  "enforced opts = (case resourceLimits opts of None \<Rightarrow> False | Some l \<Rightarrow> enforceLimits l)"

text \<open>\<open>killProc\<close>, the listener that \<open>runAgentOnce\<close> attaches to the caller's signal.\<close>

definition killProc :: "RunState \<Rightarrow> RunState" where
  "killProc st = emitProgress (st\<lparr>wasAborted := True, progress := (progress st)\<lparr>status := Aborted\<rparr>\<rparr>)"

text \<open>
  The code after \<open>await new Promise(...)\<close>, which runs once, when the promise is resolved
  with an exit code: it builds the result and passes the progress record to \<open>onProgress\<close>
  with its final status.
\<close>

definition finishRun :: "RunState \<Rightarrow> int \<Rightarrow> RunState" where
  "finishRun st code =
     (let aborted = (status (progress st) = Aborted);
          error1 = (if code \<noteq> 0 \<and> \<not> aborted
                    then Some (if stderr st \<noteq> [] then stderr st else js ''Exit code: '' @ showInt code)
                    else None);
          viaApi = (apiError st \<noteq> [] \<and> \<not> truthyStr error1);
          result = \<lparr>resExitCode = (if viaApi then 1 else code), resStderr = stderr st,
                    resAborted = aborted,
                    resError = (if viaApi then Some (apiError st) else error1)\<rparr>;
          p = (progress st)\<lparr>status := (if resAborted result then Aborted
                                        else if resExitCode result = 0 then Completed else Failed)\<rparr>
      in st\<lparr>taskResult := Some result, progress := p, emitted := emitted st @ [p]\<rparr>)"

text \<open>\<open>resolve(code)\<close>: only the first call resolves the promise.\<close>

definition resolveWith :: "int \<Rightarrow> RunState \<Rightarrow> RunState" where
  "resolveWith code st = (if taskResult st = None then finishRun st code else st)"

text \<open>
  The signals combined by \<open>AbortSignal.any\<close> and passed to \<open>spawn\<close> are the caller's, the
  duration signal and the monitor's. When the combined signal aborts, which it does once,
  Node.js kills the child and, if the child was still running, emits \<open>error\<close> on it, whose
  handler resolves the promise with 1.
\<close>

definition combinedAborted :: "RunState \<Rightarrow> bool" where
  "combinedAborted st =
     (signalFired st \<or> durationFired st \<or>
      (case memoryMonitor st of None \<Rightarrow> False | Some m \<Rightarrow> monitorAborted m))"

definition nodeAbort :: "bool \<Rightarrow> RunState \<Rightarrow> RunState" where
  "nodeAbort abortedBefore st =
     (if \<not> abortedBefore \<and> combinedAborted st \<and> \<not> childExited st then resolveWith 1 st else st)"

text \<open>
  The state when \<open>runAgentOnce\<close> starts to wait for the child. The memory monitor and the
  tool-call tracker are constructed when their limit is set and \<open>enforceLimits\<close> holds;
  \<open>start\<close> of the monitor is not called. For a caller's signal that is aborted at the call,
  \<open>killProc\<close> runs at once and Node.js aborts the child before any other event.
\<close>

definition initRun :: "ExecutorOptions \<Rightarrow> RunState" where
  "initRun opts =
     (let st = \<lparr>progress = \<lparr>status = Running, recentTools = [], recentOutput = [], toolCount = 0,
                              currentTool = None, currentToolArgs = None\<rparr>,
                 messages = [], stderr = [], apiError = [], toolUsage = Map.empty,
                 wasAborted = False,
                 memoryMonitor =
                   (if truthyNum (limitOf opts maxMemoryMB) \<and> enforced opts
                    then Some (newMemoryMonitor (the (limitOf opts maxMemoryMB))) else None),
                 toolCallTracker =
                   (if truthyNum (limitOf opts maxConcurrentToolCalls) \<and> enforced opts
                    then Some (newToolCallTracker (the (limitOf opts maxConcurrentToolCalls)))
                    else None),
                 signalFired = (signal opts = Some True), durationFired = False,
                 childExited = False, emitted = [], taskResult = None\<rparr>
      in if signal opts = Some True then nodeAbort False (killProc st) else st)"

text \<open>
  The handlers, one event at a time. A signal aborts once only; the listener \<open>killProc\<close> is
  registered when a caller's signal is given, and the duration timer exists when
  \<open>maxDurationMs\<close> is set.
\<close>

definition procStep :: "ExecutorOptions \<Rightarrow> RunState \<Rightarrow> ProcEvent \<Rightarrow> RunState" where
  "procStep opts st ev =
     (case ev of
        StdoutLine e \<Rightarrow> processLine e st
      | StderrData d \<Rightarrow> st\<lparr>stderr := stderr st @ d\<rparr>
      | ProcExited \<Rightarrow> st\<lparr>childExited := True\<rparr>
      | ProcClose code \<Rightarrow>
          resolveWith (case code of None \<Rightarrow> 0 | Some c \<Rightarrow> c) (st\<lparr>childExited := True\<rparr>)
      | ProcError \<Rightarrow> resolveWith 1 (st\<lparr>childExited := True\<rparr>)
      | SignalAbort \<Rightarrow>
          (case signal opts of
             None \<Rightarrow> st
           | Some b \<Rightarrow>
               if signalFired st then st
               else nodeAbort (combinedAborted st) (killProc (st\<lparr>signalFired := True\<rparr>)))
      | DurationElapsed \<Rightarrow>
          (if truthyNum (limitOf opts maxDurationMs) \<and> \<not> durationFired st
           then nodeAbort (combinedAborted st) (st\<lparr>durationFired := True\<rparr>) else st)
      | MemoryInterval heapUsed \<Rightarrow>
          (case memoryMonitor st of
             None \<Rightarrow> st
           | Some m \<Rightarrow>
               nodeAbort (combinedAborted st) (st\<lparr>memoryMonitor := Some (monitorTick heapUsed m)\<rparr>)))"

text \<open>
  \<open>runAgentOnce\<close> on the events of one child process: the result it returns, or \<open>None\<close> when
  the promise is never resolved, and every snapshot passed to \<open>onProgress\<close>, those after the
  result was built included.
\<close>

definition runAgentOnce :: "ExecutorOptions \<Rightarrow> ProcEvent list \<Rightarrow> TaskResult option \<times> TaskProgress list" where
  "runAgentOnce opts evs =
     (let st = foldl (procStep opts) (initRun opts) evs in (taskResult st, emitted st))"

text \<open>
  \<open>runAgentWithRetry\<close>: the loop over the attempts, each attempt with the events of its own
  child process and handlers, those delivered after its result was built included (the sleep
  between attempts only takes time). An attempt that starts after the caller's signal has
  aborted has the abort as its first event. The loop returns \<open>lastResult\<close>, which is \<open>null\<close>
  (\<open>None\<close> here) when \<open>maxAttempts\<close> is below 1. The outer \<open>None\<close> is a call that never
  returns. The snapshots are listed attempt by attempt.
\<close>

fun retryLoop ::
  "(jsstring \<Rightarrow> jsstring) \<Rightarrow> ExecutorOptions \<Rightarrow> RetryConfig \<Rightarrow> nat \<Rightarrow> TaskResult option \<Rightarrow>
     ProcEvent list list \<Rightarrow> TaskResult option option \<times> TaskProgress list" where
  "retryLoop lower opts r attempt lastResult [] =
     (if attempt \<le> maxAttempts r then (None, []) else (Some lastResult, []))"
| "retryLoop lower opts r attempt lastResult (evs # rest) =
     (if attempt \<le> maxAttempts r
      then (case runAgentOnce opts evs of
              (None, em) \<Rightarrow> (None, em)
            | (Some result, em) \<Rightarrow>
                if resExitCode result = 0 \<or> \<not> truthyStr (resError result) then (Some (Some result), em)
                else if \<not> shouldRetry lower (the (resError result)) (Some r) then (Some (Some result), em)
                else if attempt \<ge> maxAttempts r then (Some (Some result), em)
                else (case retryLoop lower opts r (attempt + 1) (Some result) rest of
                        (res, em1) \<Rightarrow> (res, em @ em1)))
      else (Some lastResult, []))"

definition runAgentWithRetry ::
  "(jsstring \<Rightarrow> jsstring) \<Rightarrow> ExecutorOptions \<Rightarrow> ProcEvent list list \<Rightarrow>
     TaskResult option option \<times> TaskProgress list" where
  "runAgentWithRetry lower opts attempts =
     (case retry opts of
        None \<Rightarrow> (case attempts of
                    [] \<Rightarrow> (None, [])
                  | evs # rest \<Rightarrow> (case runAgentOnce opts evs of (res, em) \<Rightarrow> (map_option Some res, em)))
      | Some r \<Rightarrow> retryLoop lower opts r 1 None attempts)"

definition runAgent ::
  "(jsstring \<Rightarrow> jsstring) \<Rightarrow> ExecutorOptions \<Rightarrow> ProcEvent list list \<Rightarrow>
     TaskResult option option \<times> TaskProgress list" where
  "runAgent lower opts attempts =
     (if retry opts \<noteq> None then runAgentWithRetry lower opts attempts
      else (case attempts of
              [] \<Rightarrow> (None, [])
            | evs # rest \<Rightarrow> (case runAgentOnce opts evs of (res, em) \<Rightarrow> (map_option Some res, em))))"

text \<open>
  The caps of the specification on a progress snapshot: at most 10 recent tools, at most 5
  recent outputs, and every recent output either of at most 100 code units or of 100 code
  units followed by the ellipsis \<open>"..."\<close>.
\<close>

definition isPreview :: "jsstring \<Rightarrow> bool" where
  "isPreview out = (length out \<le> 100 \<or> (length out = 103 \<and> drop 100 out = js ''...''))"

definition withinCaps :: "TaskProgress \<Rightarrow> bool" where
  "withinCaps p =
     (length (recentTools p) \<le> 10 \<and> length (recentOutput p) \<le> 5 \<and>
      list_all isPreview (recentOutput p))"


text \<open>The invariant of a run for the caps: the live record and every snapshot so far.\<close>

definition capsInv :: "RunState \<Rightarrow> bool" where
  "capsInv st = (withinCaps (progress st) \<and> list_all withinCaps (emitted st))"


text \<open>
  The guards of a run are idle: the interval of the monitor is not set and its signal has not
  fired, and the tracker counts no call and has not fired.
\<close>

definition guardsIdle :: "RunState \<Rightarrow> bool" where
  "guardsIdle st =
     ((case memoryMonitor st of None \<Rightarrow> True | Some m \<Rightarrow> \<not> intervalSet m \<and> \<not> monitorAborted m) \<and>
      (case toolCallTracker st of None \<Rightarrow> True | Some t \<Rightarrow> currentCalls t = 0 \<and> \<not> trackerAborted t))"

text \<open>
  Neither the progress record nor the result, if there is one, is marked aborted.
\<close>

definition notMarkedAborted :: "RunState \<Rightarrow> bool" where
  "notMarkedAborted st =
     (status (progress st) \<noteq> Aborted \<and>
      (case taskResult st of None \<Rightarrow> True | Some r \<Rightarrow> \<not> resAborted r))"

section \<open>Concurrency primitives (parallel.ts)\<close>

text \<open>
  A JavaScript number as far as \<open>Number.isFinite\<close> and \<open>Math.floor\<close> see it: a finite
  value, or one of \<open>NaN\<close>, \<open>Infinity\<close> and \<open>-Infinity\<close>.
\<close>

datatype JSNumber = Finite real | NaN | PosInfinity | NegInfinity

text \<open>
  The number of workers of \<open>mapWithConcurrencyLimit\<close>, with the names of the source:
  \<open>normalizedConcurrency\<close>, \<open>effectiveConcurrency\<close> and \<open>limit\<close>.
\<close>

definition workerLimit :: "JSNumber \<Rightarrow> nat \<Rightarrow> nat" where
  "workerLimit concurrency n =
     (let normalizedConcurrency = (case concurrency of Finite x \<Rightarrow> \<lfloor>x\<rfloor> | _ \<Rightarrow> int n);
          effectiveConcurrency = (if normalizedConcurrency > 0 then normalizedConcurrency else int n)
      in nat (max 1 (min effectiveConcurrency (int n))))"

text \<open>
  The limit as the specification words it: the normalized concurrency is the number of
  items for a concurrency that is not finite or not positive, and its floor otherwise.
\<close>

definition specNormalized :: "JSNumber \<Rightarrow> nat \<Rightarrow> int" where
  "specNormalized concurrency n =
     (case concurrency of Finite x \<Rightarrow> (if x \<le> 0 then int n else \<lfloor>x\<rfloor>) | _ \<Rightarrow> int n)"

definition specLimit :: "JSNumber \<Rightarrow> nat \<Rightarrow> nat" where
  "specLimit concurrency n = nat (max 1 (min (specNormalized concurrency n) (int n)))"

text \<open>
  The normalized concurrency as the code computes it: the number of items when the
  concurrency is not finite or its floor is not positive, that is, when it is below 1.
\<close>

definition codeNormalized :: "JSNumber \<Rightarrow> nat \<Rightarrow> int" where
  "codeNormalized concurrency n =
     (case concurrency of Finite x \<Rightarrow> (if x < 1 then int n else \<lfloor>x\<rfloor>) | _ \<Rightarrow> int n)"

text \<open>
  The worker pool. JavaScript runs one callback at a time, so a worker runs from the head of
  its loop to its next \<open>await\<close> without interruption. A worker is waiting for the call
  \<open>fn(items[index], index)\<close> of some index, or has returned, or has thrown. The state of a
  call of \<open>mapWithConcurrencyLimit\<close> is the array \<open>results\<close> (\<open>None\<close> is an unset entry),
  \<open>nextIndex\<close>, the workers, whether the internal controller and the external signal have
  aborted, the error given to \<open>rejectFirst\<close> first, and the indices \<open>fn\<close> was called with.
\<close>

datatype WorkerState = Awaiting nat | Returned | Thrown

record ('e, 'r) Pool =
  results :: "'r option list"
  nextIndex :: nat
  workers :: "WorkerState list"
  internalAborted :: bool
  externalAborted :: bool
  firstError :: "'e option"
  calls :: "nat list"

text \<open>
  One worker from the head of its loop: it returns when the combined signal has aborted or
  no index is left, and otherwise claims \<open>nextIndex++\<close> and calls \<open>fn\<close>.
\<close>

definition workerRun :: "nat \<Rightarrow> ('e, 'r) Pool \<Rightarrow> ('e, 'r) Pool \<times> WorkerState" where
  "workerRun n st =
     (if internalAborted st \<or> externalAborted st then (st, Returned)
      else (let index = nextIndex st; st1 = st\<lparr>nextIndex := index + 1\<rparr>
            in if index \<ge> n then (st1, Returned)
               else (st1\<lparr>calls := calls st1 @ [index]\<rparr>, Awaiting index)))"

text \<open>\<open>Array(limit).fill(null).map(() => worker())\<close>: the workers start one after the other.\<close>

fun spawnWorkers :: "nat \<Rightarrow> nat \<Rightarrow> ('e, 'r) Pool \<Rightarrow> ('e, 'r) Pool" where
  "spawnWorkers n 0 st = st"
| "spawnWorkers n (Suc k) st =
     (case workerRun n st of (st1, w) \<Rightarrow> spawnWorkers n k (st1\<lparr>workers := workers st1 @ [w]\<rparr>))"

text \<open>
  What happens around the pool, in order: the promise of the call that worker \<open>w\<close> waits
  for settles, the external signal aborts, or the continuation of
  \<open>await Promise.race([Promise.all(workers), firstErrorPromise])\<close> gets its turn. The value or
  error with which the call for an item settles is \<open>fn item index\<close>.
\<close>

datatype PoolEvent = Settle nat | ExternalAbort | Resume

definition continueWorker :: "nat \<Rightarrow> nat \<Rightarrow> ('e, 'r) Pool \<Rightarrow> ('e, 'r) Pool" where
  "continueWorker n w st =
     (case workerRun n st of (st1, ws) \<Rightarrow> st1\<lparr>workers := (workers st1)[w := ws]\<rparr>)"

definition poolStep ::
  "('a \<Rightarrow> nat \<Rightarrow> 'e + 'r) \<Rightarrow> 'a list \<Rightarrow> bool option \<Rightarrow> ('e, 'r) Pool \<Rightarrow> PoolEvent \<Rightarrow> ('e, 'r) Pool" where
  "poolStep fn items sig st ev =
     (case ev of
        Settle w \<Rightarrow>
          (if w < length (workers st)
           then (case workers st ! w of
                   Awaiting index \<Rightarrow>
                     (case fn (items ! index) index of
                        Inr v \<Rightarrow>
                          continueWorker (length items) w (st\<lparr>results := (results st)[index := Some v]\<rparr>)
                      | Inl error \<Rightarrow>
                          if \<not> (internalAborted st \<or> externalAborted st)
                          then st\<lparr>internalAborted := True,
                                  firstError := (case firstError st of None \<Rightarrow> Some error | Some e \<Rightarrow> Some e),
                                  workers := (workers st)[w := Thrown]\<rparr>
                          else continueWorker (length items) w st)
                 | Returned \<Rightarrow> st
                 | Thrown \<Rightarrow> st)
           else st)
      | ExternalAbort \<Rightarrow> (case sig of None \<Rightarrow> st | Some b \<Rightarrow> st\<lparr>externalAborted := True\<rparr>)
      | Resume \<Rightarrow> st)"

text \<open>
  The continuation of the \<open>await\<close>: nothing while the race is pending; when it is rejected
  with the first error, partial results if the external signal has aborted and the error
  otherwise; when every worker has returned, the results. \<open>Inl\<close> is a thrown error.
\<close>

definition resumeMap :: "('e, 'r) Pool \<Rightarrow> ('e + 'r option list \<times> bool) option" where
  "resumeMap st =
     (case firstError st of
        Some error \<Rightarrow> Some (if externalAborted st then Inr (results st, True) else Inl error)
      | None \<Rightarrow>
          if list_all (\<lambda>w. w = Returned) (workers st)
          then Some (Inr (results st, externalAborted st))
          else None)"

text \<open>
  The pool under a schedule, up to the moment the continuation runs with the race settled:
  the state of the pool at that moment. After the last event of the schedule the
  continuation gets its turn; \<open>None\<close> is a call that is still waiting then.
\<close>

fun runPool ::
  "('a \<Rightarrow> nat \<Rightarrow> 'e + 'r) \<Rightarrow> 'a list \<Rightarrow> bool option \<Rightarrow> ('e, 'r) Pool \<Rightarrow> PoolEvent list \<Rightarrow>
     ('e, 'r) Pool option" where
  "runPool fn items sig st [] = (if resumeMap st = None then None else Some st)"
| "runPool fn items sig st (ev # evs) =
     (if ev = Resume \<and> resumeMap st \<noteq> None then Some st
      else runPool fn items sig (poolStep fn items sig st ev) evs)"

definition initPool :: "nat \<Rightarrow> bool option \<Rightarrow> ('e, 'r) Pool" where
  "initPool n sig =
     \<lparr>results = replicate n None, nextIndex = 0, workers = [], internalAborted = False,
      externalAborted = (sig = Some True), firstError = None, calls = []\<rparr>"

text \<open>
  The pool of a call with at least one item, at the moment the call returns or throws.
\<close>

definition mapPool ::
  "'a list \<Rightarrow> JSNumber \<Rightarrow> ('a \<Rightarrow> nat \<Rightarrow> 'e + 'r) \<Rightarrow> bool option \<Rightarrow> PoolEvent list \<Rightarrow>
     ('e, 'r) Pool option" where
  "mapPool items concurrency fn sig schedule =
     runPool fn items sig
       (spawnWorkers (length items) (workerLimit concurrency (length items))
          (initPool (length items) sig))
       schedule"

text \<open>
  \<open>mapWithConcurrencyLimit\<close>: \<open>signal\<close> is \<open>None\<close> when no signal is passed and otherwise tells
  whether the signal is aborted at the call. The value is \<open>None\<close> while the call has not
  settled, \<open>Inl\<close> of the error it throws, or \<open>Inr\<close> of \<open>results\<close> and \<open>aborted\<close>.
\<close>

definition mapWithConcurrencyLimit ::
  "'a list \<Rightarrow> JSNumber \<Rightarrow> ('a \<Rightarrow> nat \<Rightarrow> 'e + 'r) \<Rightarrow> bool option \<Rightarrow> PoolEvent list \<Rightarrow>
     ('e + 'r option list \<times> bool) option" where
  "mapWithConcurrencyLimit items concurrency fn sig schedule =
     (if length items = 0 then Some (Inr ([], False))
      else (case mapPool items concurrency fn sig schedule of
              None \<Rightarrow> None
            | Some st \<Rightarrow> resumeMap st))"

text \<open>
  The entry that a settled call leaves in \<open>results\<close>: its value, or nothing when it threw.
\<close>

definition settled :: "'e + 'r \<Rightarrow> 'r option" where
  "settled outcome = (case outcome of Inl e \<Rightarrow> None | Inr v \<Rightarrow> Some v)"

text \<open>
  Some worker other than the running one waits for the call of index \<open>i\<close>.
\<close>

definition awaitedIn :: "nat option \<Rightarrow> WorkerState list \<Rightarrow> nat \<Rightarrow> bool" where
  "awaitedIn running ws i = (\<exists>w < length ws. Some w \<noteq> running \<and> ws ! w = Awaiting i)"

text \<open>
  The invariant of the pool, on the array, \<open>nextIndex\<close>, the workers and the indices called.
  The array has the length of the items; the indices called are \<open>0, 1, ...\<close> in order, up to
  \<open>nextIndex\<close>; a worker waits only for an index that was called; an entry that is set is
  the value of the call for its own index; and a call either is still awaited by a worker
  or has left its entry. With \<open>running = Some w\<close> it is the invariant while worker \<open>w\<close> runs
  between two awaits.
\<close>

definition poolInvOn ::
  "nat option \<Rightarrow> ('a \<Rightarrow> nat \<Rightarrow> 'e + 'r) \<Rightarrow> 'a list \<Rightarrow> 'r option list \<Rightarrow> nat \<Rightarrow>
     WorkerState list \<Rightarrow> nat list \<Rightarrow> bool" where
  "poolInvOn running fn items res nxt ws cs =
     (length res = length items \<and>
      cs = [0 ..< min nxt (length items)] \<and>
      (\<forall>i. awaitedIn running ws i \<longrightarrow> i < min nxt (length items)) \<and>
      (\<forall>i < length items. \<forall>v. res ! i = Some v \<longrightarrow> i < nxt \<and> fn (items ! i) i = Inr v) \<and>
      (\<forall>i < min nxt (length items). awaitedIn running ws i \<or> res ! i = settled (fn (items ! i) i)))"

definition poolInvBut ::
  "nat option \<Rightarrow> ('a \<Rightarrow> nat \<Rightarrow> 'e + 'r) \<Rightarrow> 'a list \<Rightarrow> ('e, 'r) Pool \<Rightarrow> bool" where
  "poolInvBut running fn items st =
     poolInvOn running fn items (results st) (nextIndex st) (workers st) (calls st)"

definition poolIdle :: "nat \<Rightarrow> ('e, 'r) Pool \<Rightarrow> bool" where
  "poolIdle n st =
     (externalAborted st \<and> list_all (\<lambda>w. w = Returned) (workers st) \<and> calls st = [] \<and>
      results st = replicate n None \<and> firstError st = None)"


text \<open>
  \<open>raceWithAbort\<close>. A task has an identifier and a function \<open>run\<close> that is given the
  combined signal; what its promise settles with may depend on whether that signal has
  aborted by then, so \<open>run\<close> maps the state of the signal at the settlement to an error or a
  value.
\<close>

record ('e, 'r) RaceTask =
  taskId :: jsstring
  run :: "bool \<Rightarrow> 'e + 'r"

datatype 'r RaceOutcome = Winner jsstring 'r | RaceAborted

text \<open>
  The state while the tasks run: which of the wrapped promises have settled, \<open>winnerFound\<close>,
  \<open>winnerResult\<close>, and whether the internal controller and the parent signal have aborted.
\<close>

record 'r RaceState =
  settledTasks :: "bool list"
  winnerFound :: bool
  winnerResult :: "(jsstring \<times> 'r) option"
  raceAborted :: bool
  parentAborted :: bool

datatype RaceEvent = TaskSettles nat | ParentAbort

definition initRace :: "nat \<Rightarrow> 'r RaceState" where
  "initRace n =
     \<lparr>settledTasks = replicate n False, winnerFound = False, winnerResult = None,
      raceAborted = False, parentAborted = False\<rparr>"

text \<open>
  The body of \<open>tasks.map(async (task) => ...)\<close> after its \<open>await\<close>: the first value wins and
  aborts the internal controller, an error is caught and dropped.
\<close>

definition raceStep ::
  "('e, 'r) RaceTask list \<Rightarrow> bool option \<Rightarrow> 'r RaceState \<Rightarrow> RaceEvent \<Rightarrow> 'r RaceState" where
  "raceStep tasks parentSignal st ev =
     (case ev of
        TaskSettles k \<Rightarrow>
          (if k < length tasks \<and> \<not> settledTasks st ! k
           then (let st1 = st\<lparr>settledTasks := (settledTasks st)[k := True]\<rparr>
                 in case run (tasks ! k) (parentAborted st \<or> raceAborted st) of
                      Inr result \<Rightarrow>
                        if \<not> winnerFound st
                        then st1\<lparr>winnerFound := True, raceAborted := True,
                                 winnerResult := Some (taskId (tasks ! k), result)\<rparr>
                        else st1
                    | Inl error \<Rightarrow> st1)
           else st)
      | ParentAbort \<Rightarrow>
          (case parentSignal of None \<Rightarrow> st | Some b \<Rightarrow> st\<lparr>parentAborted := True\<rparr>))"

text \<open>
  \<open>raceWithAbort\<close> under a schedule: \<open>Inl\<close> of the message of the error it throws, \<open>Inr\<close> of
  what it returns, or \<open>None\<close> while \<open>Promise.all(promises)\<close> is pending because some task has
  not settled.
\<close>

definition raceWithAbort ::
  "('e, 'r) RaceTask list \<Rightarrow> bool option \<Rightarrow> RaceEvent list \<Rightarrow> (jsstring + 'r RaceOutcome) option" where
  "raceWithAbort tasks parentSignal schedule =
     (if length tasks = 0 then Some (Inl (js ''No tasks to race''))
      else if parentSignal = Some True then Some (Inr RaceAborted)
      else (let st = foldl (raceStep tasks parentSignal) (initRace (length tasks)) schedule
            in if list_all (\<lambda>b. b) (settledTasks st)
               then (case winnerResult st of
                       Some (winner, result) \<Rightarrow> Some (Inr (Winner winner result))
                     | None \<Rightarrow> Some (Inl (js ''All race tasks failed'')))
               else None))"

section \<open>Agent inheritance (agents.ts)\<close>

text \<open>
  \<open>thinking\<close> is a number or a string. A number is truthy when it is not zero, a string when
  it is not empty.
\<close>

datatype Thinking = ThinkingNumber int | ThinkingLabel jsstring

definition truthyThinking :: "Thinking option \<Rightarrow> bool" where
  "truthyThinking t =
     (case t of
        None \<Rightarrow> False
      | Some (ThinkingNumber n) \<Rightarrow> n \<noteq> 0
      | Some (ThinkingLabel l) \<Rightarrow> l \<noteq> [])"

text \<open>
  \<open>AgentConfig\<close> with the fields that inheritance reads or writes; \<open>description\<close>,
  \<open>systemPrompt\<close>, \<open>source\<close> and \<open>filePath\<close> are not touched by it.
\<close>

record AgentConfig =
  name :: jsstring
  tools :: "jsstring list option"
  model :: "jsstring option"
  thinking :: "Thinking option"
  extends :: "jsstring option"
  resolvedTools :: "jsstring list option"
  resolvedModel :: "jsstring option"
  resolvedThinking :: "Thinking option"

text \<open>
  \<open>[...new Set(xs)]\<close>: a \<open>Set\<close> keeps its elements in the order of their first insertion.
\<close>

fun setSpreadFrom :: "'a list \<Rightarrow> 'a list \<Rightarrow> 'a list" where
  "setSpreadFrom seen [] = seen"
| "setSpreadFrom seen (x # xs) = setSpreadFrom (if x \<in> set seen then seen else seen @ [x]) xs"

definition setSpread :: "'a list \<Rightarrow> 'a list" where
  "setSpread xs = setSpreadFrom [] xs"

text \<open>\<open>a || b\<close> on optional strings.\<close>

definition orStr :: "jsstring option \<Rightarrow> jsstring option \<Rightarrow> jsstring option" where
  "orStr a b = (if truthyStr a then a else b)"

text \<open>
  The branch of \<open>resolve\<close> for an agent with a base: the agent after the three assignments,
  from the base agent and the agent as they are at that moment.
\<close>

definition inherit :: "AgentConfig \<Rightarrow> AgentConfig \<Rightarrow> AgentConfig" where
  "inherit baseAgent agent =
     (let baseTools = (case resolvedTools baseAgent of
                         Some l \<Rightarrow> l
                       | None \<Rightarrow> (case tools baseAgent of Some l \<Rightarrow> l | None \<Rightarrow> []));
          childTools = (case tools agent of Some l \<Rightarrow> l | None \<Rightarrow> []);
          combinedTools = setSpread (baseTools @ childTools);
          a1 = (if length combinedTools > 0 then agent\<lparr>resolvedTools := Some combinedTools\<rparr> else agent);
          a2 = a1\<lparr>resolvedModel := orStr (orStr (model agent) (resolvedModel baseAgent)) (model baseAgent)\<rparr>
      in if \<not> truthyThinking (thinking agent)
         then a2\<lparr>resolvedThinking :=
                   (case resolvedThinking baseAgent of Some t \<Rightarrow> Some t | None \<Rightarrow> thinking baseAgent)\<rparr>
         else a2)"

text \<open>The branch for an agent without a base: its own fields are copied when they are truthy.\<close>

definition copyOwn :: "AgentConfig \<Rightarrow> AgentConfig" where
  "copyOwn agent =
     (let a1 = (case tools agent of
                  Some l \<Rightarrow> if length l > 0 then agent\<lparr>resolvedTools := Some l\<rparr> else agent
                | None \<Rightarrow> agent);
          a2 = (if truthyStr (model agent) then a1\<lparr>resolvedModel := model agent\<rparr> else a1)
      in if truthyThinking (thinking agent) then a2\<lparr>resolvedThinking := thinking agent\<rparr> else a2)"

text \<open>
  \<open>agentMap\<close>: the loop \<open>for (const agent of agents) agentMap.set(agent.name, agent)\<close>. The
  agents are objects that \<open>resolve\<close> changes in place, so the map holds for each name the
  position in \<open>agents\<close> of the object set last under it.
\<close>

fun agentMapFrom :: "nat \<Rightarrow> jsstring list \<Rightarrow> (jsstring \<rightharpoonup> nat) \<Rightarrow> (jsstring \<rightharpoonup> nat)" where
  "agentMapFrom k [] m = m"
| "agentMapFrom k (n # ns) m = agentMapFrom (Suc k) ns (m(n \<mapsto> k))"

definition agentMap :: "jsstring list \<Rightarrow> (jsstring \<rightharpoonup> nat)" where
  "agentMap names = agentMapFrom 0 names Map.empty"

datatype ResolveError =
    CircularInheritance "jsstring list" jsstring
  | BaseNotFound jsstring
  | CircularInvolving jsstring

text \<open>
  The state that \<open>resolve\<close> works on: the agent objects by position, and the sets \<open>visited\<close>
  and \<open>resolved\<close>.
\<close>

record ResolveState =
  store :: "AgentConfig list"
  visited :: "jsstring set"
  resolved :: "jsstring set"

definition applyBase :: "jsstring list \<Rightarrow> nat \<Rightarrow> ResolveState \<Rightarrow> ResolveState" where
  "applyBase names i st =
     (case agentMap names (the (extends (store st ! i))) of
        None \<Rightarrow> st
      | Some b \<Rightarrow> st\<lparr>store := (store st)[i := inherit (store st ! b) (store st ! i)]\<rparr>)"

definition applyOwn :: "nat \<Rightarrow> ResolveState \<Rightarrow> ResolveState" where
  "applyOwn i st = st\<lparr>store := (store st)[i := copyOwn (store st ! i)]\<rparr>"

definition markResolved :: "jsstring \<Rightarrow> ResolveState \<Rightarrow> ResolveState" where
  "markResolved agentName st =
     st\<lparr>resolved := insert agentName (resolved st), visited := visited st - {agentName}\<rparr>"

lemma agentMapFrom_Some:
  "agentMapFrom k ns m n = Some i \<Longrightarrow> m n = Some i \<or> n \<in> set ns"
  by (induction k ns m rule: agentMapFrom.induct) (auto split: if_splits)

lemma agentMap_in_names: "agentMap names n = Some i \<Longrightarrow> n \<in> set names"
  using agentMapFrom_Some [of 0 names Map.empty n i] by (simp add: agentMap_def)

text \<open>
  The inner function \<open>resolve(agentName, path)\<close>, with \<open>Inl\<close> for a thrown error. The names
  on \<open>path\<close> are distinct names of the map, which bounds the depth of the recursion.
\<close>

function resolve ::
  "jsstring list \<Rightarrow> ResolveState \<Rightarrow> jsstring \<Rightarrow> jsstring list \<Rightarrow> ResolveError + ResolveState" where
  "resolve names st agentName path =
     (if agentName \<in> set path then Inl (CircularInheritance path agentName)
      else case agentMap names agentName of
        None \<Rightarrow> Inl (BaseNotFound agentName)
      | Some i \<Rightarrow>
          if agentName \<in> resolved st then Inr st
          else if agentName \<in> visited st then Inl (CircularInvolving agentName)
          else if truthyStr (extends (store st ! i))
          then (case resolve names (st\<lparr>visited := insert agentName (visited st)\<rparr>)
                       (the (extends (store st ! i))) (path @ [agentName]) of
                  Inl e \<Rightarrow> Inl e
                | Inr st2 \<Rightarrow> Inr (markResolved agentName (applyBase names i st2)))
          else Inr (markResolved agentName
                      (applyOwn i (st\<lparr>visited := insert agentName (visited st)\<rparr>))))"
  by pat_completeness auto
termination
proof (relation "measure (\<lambda>(names, st, agentName, path). card (set names - set path))")
  show "wf (measure (\<lambda>(names, st, agentName, path). card (set names - set path)))"
    by simp
next
  fix names :: "jsstring list" and st :: ResolveState and agentName :: jsstring
    and path :: "jsstring list" and i :: nat
  assume fresh: "agentName \<notin> set path" and found: "agentMap names agentName = Some i"
  from found have "agentName \<in> set names" by (rule agentMap_in_names)
  with fresh have "set names - set (path @ [agentName]) \<subset> set names - set path"
    by auto
  then have "card (set names - set (path @ [agentName])) < card (set names - set path)"
    by (simp add: psubset_card_mono)
  then show "((names, st\<lparr>visited := insert agentName (visited st)\<rparr>,
        the (extends (store st ! i)), path @ [agentName]), names, st, agentName, path)
      \<in> measure (\<lambda>(names, st, agentName, path). card (set names - set path))"
    by simp
qed

text \<open>
  \<open>resolveAgentInheritance\<close>: the loop over the agents, and the agents it returns.
\<close>

fun resolveAll :: "jsstring list \<Rightarrow> ResolveState \<Rightarrow> jsstring list \<Rightarrow> ResolveError + ResolveState" where
  "resolveAll names st [] = Inr st"
| "resolveAll names st (n # ns) =
     (if n \<in> resolved st then resolveAll names st ns
      else (case resolve names st n [] of
              Inl e \<Rightarrow> Inl e
            | Inr st1 \<Rightarrow> resolveAll names st1 ns))"

definition resolveAgentInheritance :: "AgentConfig list \<Rightarrow> ResolveError + AgentConfig list" where
  "resolveAgentInheritance agents =
     (case resolveAll (map name agents) \<lparr>store = agents, visited = {}, resolved = {}\<rparr> (map name agents) of
        Inl e \<Rightarrow> Inl e
      | Inr st \<Rightarrow> Inr (store st))"

text \<open>
  What \<open>resolve\<close> leaves in the agent at position \<open>i\<close> once it is resolved, in terms of the
  agents given (\<open>ags\<close>): the inheritance from its base as the base is in the store, the base
  being resolved itself, or the copy of its own fields. The invariant of the resolution: an
  agent whose name is in \<open>resolved\<close> is resolved in this sense, and any other agent is as
  it was given.
\<close>

definition resolvedAs :: "AgentConfig list \<Rightarrow> AgentConfig list \<Rightarrow> jsstring set \<Rightarrow> nat \<Rightarrow> bool" where
  "resolvedAs ags s R i =
     (if truthyStr (extends (ags ! i))
      then (case agentMap (map name ags) (the (extends (ags ! i))) of
              None \<Rightarrow> False
            | Some b \<Rightarrow> name (ags ! b) \<in> R \<and> s ! i = inherit (s ! b) (ags ! i))
      else s ! i = copyOwn (ags ! i))"

definition resolveInvOn :: "AgentConfig list \<Rightarrow> AgentConfig list \<Rightarrow> jsstring set \<Rightarrow> bool" where
  "resolveInvOn ags s R =
     (length s = length ags \<and>
      (\<forall>i < length ags. if name (ags ! i) \<in> R then resolvedAs ags s R i else s ! i = ags ! i))"

definition resolveInv :: "AgentConfig list \<Rightarrow> ResolveState \<Rightarrow> bool" where
  "resolveInv ags st = resolveInvOn ags (store st) (resolved st)"

text \<open>The tools that \<open>resolve\<close> takes from the base and from the agent itself.\<close>

definition baseToolsOf :: "AgentConfig \<Rightarrow> jsstring list" where
  "baseToolsOf baseAgent =
     (case resolvedTools baseAgent of
        Some l \<Rightarrow> l
      | None \<Rightarrow> (case tools baseAgent of Some l \<Rightarrow> l | None \<Rightarrow> []))"

definition ownToolsOf :: "AgentConfig \<Rightarrow> jsstring list" where
  "ownToolsOf agent = (case tools agent of Some l \<Rightarrow> l | None \<Rightarrow> [])"

section \<open>Properties of the retry policy\<close>

lemma startsWith_prefix: "startsWith s p = prefix p s"
  by (induction s p rule: startsWith.induct) auto

lemma includes_sublist: "includes_js s p = sublist p s"
proof (induction s)
  case Nil
  then show ?case by simp
next
  case (Cons c cs)
  then show ?case
    by (simp add: startsWith_prefix sublist_Cons_right)
qed

lemma matchesAny_iff:
  "matchesAny lower error ps = (\<exists>p \<in> set ps. ciSubstring lower p error)"
  by (induction ps) (simp_all add: includes_sublist ciSubstring_def)

text \<open>
  Claim C6. For every error string and retry configuration: \<open>shouldRetry\<close> is false when the
  configuration is absent; false whenever some \<open>skipOn\<close> pattern occurs case-insensitively in
  the error, whatever \<open>retryOn\<close> is; true when no \<open>skipOn\<close> pattern matches and \<open>retryOn\<close> is
  absent or empty; and otherwise true exactly when some \<open>retryOn\<close> pattern occurs
  case-insensitively in the error.
\<close>

theorem shouldRetry_cases:
  "shouldRetry lower e None = False \<and>
   ((\<exists>p \<in> set (patternsOf (skipOn r)). ciSubstring lower p e) \<longrightarrow>
      shouldRetry lower e (Some r) = False) \<and>
   (\<not> (\<exists>p \<in> set (patternsOf (skipOn r)). ciSubstring lower p e) \<and>
      patternsOf (retryOn r) = [] \<longrightarrow> shouldRetry lower e (Some r) = True) \<and>
   (\<not> (\<exists>p \<in> set (patternsOf (skipOn r)). ciSubstring lower p e) \<and>
      patternsOf (retryOn r) \<noteq> [] \<longrightarrow>
      shouldRetry lower e (Some r) =
        (\<exists>p \<in> set (patternsOf (retryOn r)). ciSubstring lower p e))"
  by (auto simp: shouldRetry_def matchesAny_iff patternsOf_def split: option.splits)

theorem shouldRetry_cases_witness:
  "ciSubstring asciiLower (js ''fatal error'') (js ''Fatal Error: cannot recover'') \<and>
   shouldRetry asciiLower (js ''Fatal Error: cannot recover'')
     (Some \<lparr>maxAttempts = 3, backoffMs = 10,
            retryOn = Some [js ''error''], skipOn = Some [js ''fatal error'']\<rparr>) = False"
proof -
  let ?r = "\<lparr>maxAttempts = 3, backoffMs = 10,
            retryOn = Some [js ''error''], skipOn = Some [js ''fatal error'']\<rparr>"
  let ?e = "js ''Fatal Error: cannot recover''"
  have m: "ciSubstring asciiLower (js ''fatal error'') ?e"
    unfolding ciSubstring_def includes_sublist [symmetric]
    by (simp add: js_def asciiLower_def)
  then have "\<exists>p \<in> set (patternsOf (skipOn ?r)). ciSubstring asciiLower p ?e"
    by (simp add: patternsOf_def)
  with shouldRetry_cases [of asciiLower ?e ?r] m show ?thesis
    by blast
qed

section \<open>Properties of output truncation\<close>

lemma splitLines_nonempty: "splitLines s \<noteq> []"
  by (induction s) (auto split: list.splits)

lemma length_splitLines: "length (splitLines s) = Suc (length (filter (\<lambda>c. c = 10) s))"
  by (induction s) (auto split: list.splits simp: splitLines_nonempty)

lemma splitLines_no_newline: "l \<in> set (splitLines s) \<Longrightarrow> 10 \<notin> set l"
  by (induction s arbitrary: l) (auto split: list.splits if_splits)

lemma joinLines_splitLines: "joinLines (splitLines s) = s"
proof (induction s)
  case Nil
  then show ?case by simp
next
  case (Cons c cs)
  obtain l ls where sp: "splitLines cs = l # ls"
    using splitLines_nonempty [of cs] by (cases "splitLines cs") auto
  with Cons show ?case
    by (cases ls) auto
qed

lemma splitLines_plain: "10 \<notin> set l \<Longrightarrow> splitLines l = [l]"
  by (induction l) auto

lemma splitLines_append: "10 \<notin> set l \<Longrightarrow> splitLines (l @ 10 # r) = l # splitLines r"
  by (induction l) auto

lemma splitLines_joinLines:
  "ls \<noteq> [] \<Longrightarrow> (\<And>l. l \<in> set ls \<Longrightarrow> 10 \<notin> set l) \<Longrightarrow> splitLines (joinLines ls) = ls"
  by (induction ls rule: joinLines.induct) (auto simp: splitLines_plain splitLines_append)

lemma byteLength_le: "byteLength s \<le> 3 * length s"
  by (induction s rule: byteLength.induct) auto

lemma halveLoop_exit:
  "\<not> (int (byteLength r) > maxBytes \<and> length r > 0) \<Longrightarrow> halveLoop maxBytes r = Some r"
  by (subst halveLoop.simps) auto

lemma halveLoop_step:
  "int (byteLength r) > maxBytes \<and> length r > 0 \<Longrightarrow>
     halveLoop maxBytes r = halveLoop maxBytes (drop (length r div 2) r)"
  by (subst halveLoop.simps) auto

lemma halveLoop_post:
  "halveLoop maxBytes r = Some out \<Longrightarrow>
     suffix out r \<and> \<not> (int (byteLength out) > maxBytes \<and> length out > 0)"
proof (induction maxBytes r out rule: halveLoop.raw_induct [rotated 1, consumes 1])
  case (1 halveLoop' maxBytes result out)
  show ?case
  proof (cases "int (byteLength result) > maxBytes \<and> length result > 0")
    case True
    with 1(2) have a: "halveLoop' maxBytes (drop (length result div 2) result) = Some out"
      by simp
    from 1(1) [OF a] show ?thesis
      using suffix_drop suffix_order.trans by blast
  next
    case False
    with 1(2) show ?thesis by auto
  qed
qed

lemma halveLoop_returns:
  assumes "3 \<le> maxBytes"
  shows "\<exists>out. halveLoop maxBytes r = Some out"
proof (induction r rule: length_induct)
  case (1 r)
  show ?case
  proof (cases "int (byteLength r) > maxBytes \<and> length r > 0")
    case False
    then have "halveLoop maxBytes r = Some r" by (rule halveLoop_exit)
    then show ?thesis by simp
  next
    case True
    have "byteLength r \<le> 3 * length r" by (rule byteLength_le)
    with True assms have "2 \<le> length r" by linarith
    then have "length (drop (length r div 2) r) < length r" by simp
    with 1 obtain out where "halveLoop maxBytes (drop (length r div 2) r) = Some out"
      by blast
    with halveLoop_step [OF True] show ?thesis by simp
  qed
qed

lemma byteStage_post:
  assumes "byteStage maxBytes r f = Some (out, t)"
  shows "suffix out r \<and> \<not> (int (byteLength out) > maxBytes \<and> length out > 0) \<and> (f \<longrightarrow> t)"
  using assms halveLoop_post [of maxBytes r out]
  by (auto simp: byteStage_def split: if_splits option.splits)

lemma byteStage_fix:
  assumes "\<not> (int (byteLength out) > maxBytes \<and> length out > 0)"
  shows "\<exists>t. byteStage maxBytes out f = Some (out, t)"
  using assms by (auto simp: byteStage_def halveLoop_exit)

lemma byteStage_returns:
  assumes "3 \<le> maxBytes"
  shows "\<exists>out t. byteStage maxBytes r f = Some (out, t)"
  using halveLoop_returns [OF assms, of r] by (auto simp: byteStage_def)

lemma lineStage_fits:
  assumes "fst (lineStage maxLines s) = r"
  shows "r = [] \<or> int (length (splitLines r)) \<le> maxLines"
proof (cases "int (length (splitLines s)) > maxLines")
  case False
  with assms show ?thesis
    by (auto simp: lineStage_def Let_def joinLines_splitLines)
next
  case True
  let ?k = "nat (int (length (splitLines s)) - maxLines)"
  let ?ls = "drop ?k (splitLines s)"
  from True assms have r: "r = joinLines ?ls"
    by (simp add: lineStage_def Let_def)
  show ?thesis
  proof (cases "?ls = []")
    case True
    with r show ?thesis by simp
  next
    case False
    have "\<And>l. l \<in> set ?ls \<Longrightarrow> 10 \<notin> set l"
      using splitLines_no_newline in_set_dropD by metis
    with False r have "splitLines r = ?ls"
      by (simp add: splitLines_joinLines)
    moreover from False have "?k < length (splitLines s)" by simp
    ultimately show ?thesis using True by simp
  qed
qed

lemma filter_suffix_le:
  "suffix out r \<Longrightarrow> length (filter P out) \<le> length (filter P r)"
  by (auto simp: suffix_def)

lemma lineStage_suffix_fix:
  assumes "fst (lineStage maxLines s) = r" and "suffix out r"
  shows "fst (lineStage maxLines out) = out"
proof -
  from lineStage_fits [OF assms(1)] consider "r = []" | "int (length (splitLines r)) \<le> maxLines"
    by blast
  then show ?thesis
  proof cases
    case 1
    with assms(2) have "out = []" by simp
    then show ?thesis by (simp add: lineStage_def Let_def)
  next
    case 2
    from assms(2) have "length (splitLines out) \<le> length (splitLines r)"
      by (simp add: length_splitLines filter_suffix_le)
    with 2 show ?thesis
      by (simp add: lineStage_def Let_def joinLines_splitLines)
  qed
qed

lemma truncateOutput_returns:
  assumes "3 \<le> maxBytes"
  shows "\<exists>out t. truncateOutput s maxBytes maxLines = Some (out, t)"
proof -
  obtain r f where "lineStage maxLines s = (r, f)" by (cases "lineStage maxLines s")
  with byteStage_returns [OF assms, of r f] show ?thesis
    by (simp add: truncateOutput_def)
qed

lemma truncateOutput_twice:
  assumes "truncateOutput s maxBytes maxLines = Some (out, t)"
  shows "(\<exists>t'. truncateOutput out maxBytes maxLines = Some (out, t')) \<and>
         (snd (lineStage maxLines s) \<longrightarrow> t)"
proof -
  obtain r f where ls: "lineStage maxLines s = (r, f)" by (cases "lineStage maxLines s")
  with assms have bs: "byteStage maxBytes r f = Some (out, t)"
    by (simp add: truncateOutput_def)
  note post = byteStage_post [OF bs]
  from ls have "fst (lineStage maxLines s) = r" by simp
  from lineStage_suffix_fix [OF this] post have "fst (lineStage maxLines out) = out" by blast
  then obtain f' where ls': "lineStage maxLines out = (out, f')"
    by (cases "lineStage maxLines out") simp
  from byteStage_fix [where out = out and maxBytes = maxBytes and f = f'] post obtain t' where
    "byteStage maxBytes out f' = Some (out, t')" by blast
  with ls ls' post show ?thesis
    by (auto simp: truncateOutput_def)
qed

text \<open>
  With the limits of the repository, as \<open>runAgentOnce\<close> calls it, truncation returns for every
  output and is idempotent.
\<close>

lemma truncateOutput_default_idempotent:
  "\<exists>out t t'. truncateOutput s MAX_OUTPUT_BYTES MAX_OUTPUT_LINES = Some (out, t) \<and>
     truncateOutput out MAX_OUTPUT_BYTES MAX_OUTPUT_LINES = Some (out, t')"
proof -
  have "3 \<le> MAX_OUTPUT_BYTES" by (simp add: MAX_OUTPUT_BYTES_def)
  from truncateOutput_returns [OF this] obtain out t where
    r: "truncateOutput s MAX_OUTPUT_BYTES MAX_OUTPUT_LINES = Some (out, t)" by blast
  from truncateOutput_twice [OF r] r show ?thesis by blast
qed

lemma joinLines_append:
  "a \<noteq> [] \<Longrightarrow> b \<noteq> [] \<Longrightarrow> joinLines (a @ b) = joinLines a @ 10 # joinLines b"
proof (induction a rule: joinLines.induct)
  case 1
  then show ?case by simp
next
  case (2 l)
  then show ?case by (cases b) simp_all
next
  case (3 l m ls)
  then show ?case by simp
qed

text \<open>
  The line stage sets the flag exactly when it drops lines, and for a limit of at least one
  line the text it returns is then shorter than its input.
\<close>

lemma lineStage_shorter:
  assumes "1 \<le> maxLines" and "lineStage maxLines s = (r, f)"
  shows "if f then length r < length s else r = s"
proof (cases "int (length (splitLines s)) > maxLines")
  case False
  with assms(2) show ?thesis
    by (auto simp: lineStage_def Let_def joinLines_splitLines)
next
  case True
  let ?k = "nat (int (length (splitLines s)) - maxLines)"
  from True assms(1) have k: "0 < ?k" "?k < length (splitLines s)" by simp_all
  then have "take ?k (splitLines s) \<noteq> []" "drop ?k (splitLines s) \<noteq> []" by auto
  from joinLines_append [OF this]
  have "s = joinLines (take ?k (splitLines s)) @ 10 # joinLines (drop ?k (splitLines s))"
    by (simp add: joinLines_splitLines)
  then have "length s =
      length (joinLines (take ?k (splitLines s))) + 1 + length (joinLines (drop ?k (splitLines s)))"
    by (metis add.assoc length_Cons length_append plus_1_eq_Suc)
  moreover from True assms(2) have "f" "r = joinLines (drop ?k (splitLines s))"
    by (auto simp: lineStage_def Let_def)
  ultimately show ?thesis by simp
qed

text \<open>
  The byte stage returns its input unchanged with the flag it was given, or a strictly
  shorter suffix with the flag set.
\<close>

lemma byteStage_shorter:
  assumes "0 \<le> maxBytes" and "byteStage maxBytes r f = Some (out, t)"
  shows "(out = r \<and> t = f) \<or> (length out < length r \<and> t)"
proof (cases "int (byteLength r) > maxBytes")
  case False
  with assms(2) show ?thesis by (simp add: byteStage_def)
next
  case True
  with assms(2) have h: "halveLoop maxBytes r = Some out" and t: "t"
    by (auto simp: byteStage_def split: option.splits)
  note post = halveLoop_post [OF h]
  from True assms(1) have "r \<noteq> []" by auto
  with True post have "out \<noteq> r" by auto
  moreover from post have "length out \<le> length r" by (simp add: suffix_length_le)
  moreover from post have "length out = length r \<Longrightarrow> out = r"
    by (auto simp: suffix_def)
  ultimately have "length out < length r" by (cases "length out = length r") auto
  with t show ?thesis by simp
qed

lemma truncateOutput_flag:
  assumes "0 \<le> maxBytes" and "1 \<le> maxLines"
    and "truncateOutput s maxBytes maxLines = Some (out, t)"
  shows "t \<longleftrightarrow> out \<noteq> s"
proof -
  obtain r f where ls: "lineStage maxLines s = (r, f)" by (cases "lineStage maxLines s")
  with assms(3) have bs: "byteStage maxBytes r f = Some (out, t)"
    by (simp add: truncateOutput_def)
  from lineStage_shorter [OF assms(2) ls] byteStage_shorter [OF assms(1) bs] show ?thesis
    by (cases f) auto
qed

lemma truncateOutput_again:
  assumes "0 \<le> maxBytes" and "1 \<le> maxLines"
    and "truncateOutput s maxBytes maxLines = Some (out, t)"
  shows "truncateOutput out maxBytes maxLines = Some (out, False)"
proof -
  from truncateOutput_twice [OF assms(3)] obtain t' where
    again: "truncateOutput out maxBytes maxLines = Some (out, t')" by blast
  from truncateOutput_flag [OF assms(1,2) again] have "\<not> t'" by simp
  with again show ?thesis by simp
qed

lemma splitLines_newlines: "splitLines (replicate n 10) = replicate (Suc n) []"
  by (induction n) simp_all

lemma joinLines_empties: "joinLines (replicate (Suc n) []) = replicate n 10"
proof (induction n)
  case 0
  then show ?case by simp
next
  case (Suc n)
  have "joinLines (replicate (Suc (Suc n)) []) = 10 # joinLines (replicate (Suc n) [])"
    by simp
  with Suc show ?case by simp
qed

lemma byteLength_newlines: "byteLength (replicate n 10) = n"
proof (induction n)
  case 0
  then show ?case by simp
next
  case (Suc n)
  then show ?case by (cases n) simp_all
qed

text \<open>
  Claim C8. Output truncation is idempotent: \<open>truncateOutput\<close> returns, and applied to the
  output it returned it returns that same output again. Within one call the flag \<open>truncated\<close>
  stays set once the truncation by lines has set it. Across the two applications it does not:
  for a limit of at least one line the flag tells whether the call returned a text other than
  its input, so the second application returns it unset. The loop of the byte stage ends for
  every limit of at least three bytes, the most that one code unit takes; the limit of the
  repository is \<open>MAX_OUTPUT_BYTES\<close>.
\<close>

theorem truncateOutput_idempotent:
  assumes "3 \<le> maxBytes"
  shows "\<exists>out t t'. truncateOutput s maxBytes maxLines = Some (out, t) \<and>
           truncateOutput out maxBytes maxLines = Some (out, t') \<and>
           (snd (lineStage maxLines s) \<longrightarrow> t) \<and>
           (1 \<le> maxLines \<longrightarrow> (t \<longleftrightarrow> out \<noteq> s) \<and> \<not> t')"
proof -
  from truncateOutput_returns [OF assms] obtain out t where
    r: "truncateOutput s maxBytes maxLines = Some (out, t)" by blast
  from truncateOutput_twice [OF r] obtain t' where
    again: "truncateOutput out maxBytes maxLines = Some (out, t')"
    and mono: "snd (lineStage maxLines s) \<longrightarrow> t" by blast
  from assms have nonneg: "0 \<le> maxBytes" by simp
  have "(t \<longleftrightarrow> out \<noteq> s) \<and> \<not> t'" if "1 \<le> maxLines"
    using truncateOutput_flag [OF nonneg that r] truncateOutput_again [OF nonneg that r] again
    by simp
  with r again mono show ?thesis by blast
qed

theorem truncateOutput_idempotent_witness:
  "(3::int) \<le> 3 \<and> (1::int) \<le> 2 \<and>
   truncateOutput [97, 10, 98, 98, 10, 99, 99] 3 2 = Some ([10, 99, 99], True) \<and>
   truncateOutput [10, 99, 99] 3 2 = Some ([10, 99, 99], False) \<and>
   snd (lineStage 2 [97, 10, 98, 98, 10, 99, 99])"
proof -
  let ?s = "[97, 10, 98, 98, 10, 99, 99] :: jsstring"
  have ls: "lineStage 2 ?s = ([98, 98, 10, 99, 99], True)"
    by (simp add: lineStage_def)
  have "halveLoop 3 [98, 98, 10, 99, 99] = halveLoop 3 [10, 99, 99]"
    by (subst halveLoop.simps) simp
  also have "\<dots> = Some [10, 99, 99]"
    by (subst halveLoop.simps) simp
  finally have run: "truncateOutput ?s 3 2 = Some ([10, 99, 99], True)"
    by (simp add: truncateOutput_def ls byteStage_def)
  from truncateOutput_idempotent [of 3 ?s 2] obtain out t t' where
    "truncateOutput ?s 3 2 = Some (out, t)" "truncateOutput out 3 2 = Some (out, t')" "\<not> t'"
    by auto
  with run have "truncateOutput [10, 99, 99] 3 2 = Some ([10, 99, 99], False)"
    by simp
  with run ls show ?thesis by simp
qed

text \<open>
  With the limits of the repository: an output of 2000 line feeds has 2001 lines, so the
  first application drops one line and returns 1999 line feeds with the flag set; applied to
  these, \<open>truncateOutput\<close> returns them again with the flag unset.
\<close>

theorem truncateOutput_flag_counterexample:
  "truncateOutput (replicate 2000 10) MAX_OUTPUT_BYTES MAX_OUTPUT_LINES =
     Some (replicate 1999 10, True) \<and>
   truncateOutput (replicate 1999 10) MAX_OUTPUT_BYTES MAX_OUTPUT_LINES =
     Some (replicate 1999 10, False)"
proof -
  have "drop 1 (replicate 2001 ([] :: jsstring)) = replicate (Suc 1999) []" by simp
  then have "joinLines (drop 1 (replicate 2001 ([] :: jsstring))) = replicate 1999 10"
    by (simp only: joinLines_empties)
  then have first: "lineStage MAX_OUTPUT_LINES (replicate 2000 10) = (replicate 1999 10, True)"
    by (simp add: lineStage_def splitLines_newlines MAX_OUTPUT_LINES_def)
  have "replicate 2000 ([] :: jsstring) = replicate (Suc 1999) []" by simp
  then have "joinLines (replicate 2000 ([] :: jsstring)) = replicate 1999 10"
    by (simp only: joinLines_empties)
  then have second: "lineStage MAX_OUTPUT_LINES (replicate 1999 10) = (replicate 1999 10, False)"
    by (simp add: lineStage_def splitLines_newlines MAX_OUTPUT_LINES_def)
  have "byteStage MAX_OUTPUT_BYTES (replicate 1999 10) f = Some (replicate 1999 10, f)" for f
    by (simp add: byteStage_def byteLength_newlines MAX_OUTPUT_BYTES_def)
  with first second show ?thesis by (simp add: truncateOutput_def)
qed

section \<open>Properties of the progress queues\<close>

lemma isPreview_outputPreview: "isPreview (outputPreview t)"
  by (simp add: isPreview_def outputPreview_def js_def)

lemma pushOutput_caps:
  assumes "length q \<le> 5" and "list_all isPreview q"
  shows "length (pushOutput q part) \<le> 5 \<and> list_all isPreview (pushOutput q part)"
proof (cases part)
  case (TextPart t)
  show ?thesis
  proof (cases "trimTruthy t")
    case True
    have "list_all isPreview (tl (q @ [outputPreview t]))"
      using assms(2) isPreview_outputPreview [of t] by (cases q) simp_all
    with True TextPart assms show ?thesis
      by (simp add: pushOutput_def Let_def isPreview_outputPreview)
  next
    case False
    with TextPart assms show ?thesis by (simp add: pushOutput_def)
  qed
next
  case OtherPart
  with assms show ?thesis by (simp add: pushOutput_def)
qed

lemma foldl_pushOutput_caps:
  "length q \<le> 5 \<Longrightarrow> list_all isPreview q \<Longrightarrow>
     length (foldl pushOutput q parts) \<le> 5 \<and> list_all isPreview (foldl pushOutput q parts)"
proof (induction parts arbitrary: q)
  case Nil
  then show ?case by simp
next
  case (Cons part parts)
  from pushOutput_caps [OF Cons.prems] Cons.IH [of "pushOutput q part"] show ?case
    by simp
qed

lemma pushTool_length: "length q \<le> 10 \<Longrightarrow> length (pushTool q entry) \<le> 10"
  by (simp add: pushTool_def Let_def)

lemma capsInv_emit: "capsInv st \<Longrightarrow> capsInv (emitProgress st)"
  by (simp add: capsInv_def emitProgress_def)

lemma capsInv_messageEnd:
  assumes "capsInv st"
  shows "capsInv (processLine (MessageEnd m) st)"
proof (cases m)
  case None
  with assms show ?thesis by (simp add: processLine_def)
next
  case (Some msg)
  from assms have q: "length (recentOutput (progress st)) \<le> 5"
    "list_all isPreview (recentOutput (progress st))"
    by (simp_all add: capsInv_def withinCaps_def)
  note f = foldl_pushOutput_caps [OF q, of "content msg"]
  show ?thesis
  proof (cases "role msg = js ''assistant''")
    case False
    with Some assms show ?thesis
      by (simp add: processLine_def capsInv_def Let_def)
  next
    case True
    with Some assms f show ?thesis
      by (simp add: processLine_def capsInv_def withinCaps_def emitProgress_def Let_def)
  qed
qed

lemma capsInv_toolEnd:
  assumes "capsInv st"
  shows "capsInv (processLine ToolExecutionEnd st)"
proof -
  from assms have "length (recentTools (progress st)) \<le> 10"
    by (simp add: capsInv_def withinCaps_def)
  note t = pushTool_length [OF this]
  with assms show ?thesis
    by (simp add: processLine_def capsInv_def withinCaps_def emitProgress_def Let_def)
qed

lemma capsInv_processLine:
  assumes "capsInv st"
  shows "capsInv (processLine e st)"
proof (cases e)
  case (MessageEnd m)
  with assms show ?thesis by (simp add: capsInv_messageEnd)
next
  case (ToolExecutionStart n a)
  with assms show ?thesis
    by (simp add: processLine_def capsInv_def withinCaps_def emitProgress_def)
next
  case ToolExecutionEnd
  with assms show ?thesis by (simp add: capsInv_toolEnd)
next
  case (ToolResultEnd m)
  with assms show ?thesis
    by (cases m) (simp_all add: processLine_def capsInv_def withinCaps_def emitProgress_def)
next
  case Ignored
  with assms show ?thesis by (simp add: processLine_def)
qed

lemma capsInv_killProc: "capsInv st \<Longrightarrow> capsInv (killProc st)"
  by (simp add: capsInv_def withinCaps_def killProc_def emitProgress_def)

lemma capsInv_finishRun: "capsInv st \<Longrightarrow> capsInv (finishRun st code)"
  by (simp add: capsInv_def withinCaps_def finishRun_def Let_def)

lemma capsInv_resolveWith: "capsInv st \<Longrightarrow> capsInv (resolveWith code st)"
  by (simp add: resolveWith_def capsInv_finishRun)

lemma capsInv_nodeAbort: "capsInv st \<Longrightarrow> capsInv (nodeAbort b st)"
  by (simp add: nodeAbort_def capsInv_resolveWith)

lemma capsInv_procStep:
  assumes "capsInv st"
  shows "capsInv (procStep opts st ev)"
proof (cases ev)
  case (StdoutLine e)
  with assms show ?thesis by (simp add: procStep_def capsInv_processLine)
next
  case (StderrData d)
  with assms show ?thesis by (simp add: procStep_def capsInv_def)
next
  case ProcExited
  with assms show ?thesis by (simp add: procStep_def capsInv_def)
next
  case (ProcClose code)
  from assms have "capsInv (st\<lparr>childExited := True\<rparr>)" by (simp add: capsInv_def)
  with ProcClose show ?thesis by (simp add: procStep_def capsInv_resolveWith)
next
  case ProcError
  from assms have "capsInv (st\<lparr>childExited := True\<rparr>)" by (simp add: capsInv_def)
  with ProcError show ?thesis by (simp add: procStep_def capsInv_resolveWith)
next
  case SignalAbort
  from assms have "capsInv (st\<lparr>signalFired := True\<rparr>)" by (simp add: capsInv_def)
  from capsInv_nodeAbort [OF capsInv_killProc [OF this]] SignalAbort assms show ?thesis
    by (simp add: procStep_def split: option.splits)
next
  case DurationElapsed
  from assms have "capsInv (st\<lparr>durationFired := True\<rparr>)" by (simp add: capsInv_def)
  from capsInv_nodeAbort [OF this] DurationElapsed assms show ?thesis
    by (simp add: procStep_def)
next
  case (MemoryInterval h)
  from assms have "capsInv (st\<lparr>memoryMonitor := m\<rparr>)" for m by (simp add: capsInv_def)
  from capsInv_nodeAbort [OF this] MemoryInterval assms show ?thesis
    by (simp add: procStep_def split: option.splits)
qed

lemma capsInv_initRun: "capsInv (initRun opts)"
proof -
  have "capsInv st" if "progress st = \<lparr>status = Running, recentTools = [], recentOutput = [],
      toolCount = 0, currentTool = None, currentToolArgs = None\<rparr>" and "emitted st = []" for st
    using that by (simp add: capsInv_def withinCaps_def)
  note base = this
  show ?thesis
    unfolding initRun_def Let_def
    by (auto intro!: capsInv_nodeAbort capsInv_killProc base)
qed

lemma capsInv_foldl: "capsInv st \<Longrightarrow> capsInv (foldl (procStep opts) st evs)"
  by (induction evs arbitrary: st) (simp_all add: capsInv_procStep)

lemma runAgentOnce_caps:
  assumes "runAgentOnce opts evs = (res, em)"
  shows "list_all withinCaps em"
proof -
  have "capsInv (foldl (procStep opts) (initRun opts) evs)"
    by (rule capsInv_foldl [OF capsInv_initRun])
  with assms show ?thesis
    by (auto simp: runAgentOnce_def capsInv_def Let_def)
qed

lemma retryLoop_caps:
  "retryLoop lower opts r attempt lastResult attempts = (res, em) \<Longrightarrow> list_all withinCaps em"
proof (induction attempts arbitrary: attempt lastResult res em)
  case Nil
  then show ?case by (auto split: if_splits)
next
  case (Cons evs rest)
  obtain res1 em1 where once: "runAgentOnce opts evs = (res1, em1)"
    by (cases "runAgentOnce opts evs")
  note c1 = runAgentOnce_caps [OF once]
  obtain res2 em2 where more: "retryLoop lower opts r (attempt + 1) res1 rest = (res2, em2)"
    by (cases "retryLoop lower opts r (attempt + 1) res1 rest")
  note c2 = Cons.IH [OF more]
  from Cons.prems once more c1 c2 show ?case
    by (auto split: if_splits option.splits)
qed

lemma runAgent_caps:
  assumes "runAgent lower opts attempts = (res, em)"
  shows "list_all withinCaps em"
proof (cases "retry opts")
  case (Some r)
  with assms retryLoop_caps show ?thesis
    by (auto simp: runAgent_def runAgentWithRetry_def)
next
  case None
  show ?thesis
  proof (cases attempts)
    case Nil
    with None assms show ?thesis by (auto simp: runAgent_def)
  next
    case (Cons evs rest)
    obtain res1 em1 where once: "runAgentOnce opts evs = (res1, em1)"
      by (cases "runAgentOnce opts evs")
    with None Cons assms runAgentOnce_caps [OF once] show ?thesis
      by (auto simp: runAgent_def)
  qed
qed

text \<open>
  Claim C9. Throughout a \<open>runAgent\<close> execution, whatever the child processes print and
  whenever the signals fire, before and after the result of an attempt is built, every
  snapshot passed to \<open>onProgress\<close> holds at most 10 recent tools and at most 5 recent
  outputs, each recent output being at most 100 code units or 100 code units and the
  ellipsis; and a push on a full queue drops the oldest entry.
\<close>

theorem progress_queues_bounded:
  "(\<forall>p \<in> set (snd (runAgent lower opts attempts)).
      length (recentTools p) \<le> 10 \<and> length (recentOutput p) \<le> 5 \<and>
      (\<forall>out \<in> set (recentOutput p).
         length out \<le> 100 \<or> (length out = 103 \<and> drop 100 out = js ''...''))) \<and>
   (length outs = 5 \<and> trimTruthy t \<longrightarrow>
      pushOutput outs (TextPart t) = tl outs @ [outputPreview t]) \<and>
   (length queue = 10 \<longrightarrow> pushTool queue entry = tl queue @ [entry])"
proof -
  have "\<forall>p \<in> set (snd (runAgent lower opts attempts)). withinCaps p"
    using runAgent_caps [of lower opts attempts "fst (runAgent lower opts attempts)"
        "snd (runAgent lower opts attempts)"]
    by (simp add: list_all_iff)
  moreover have "length outs = 5 \<Longrightarrow> tl (outs @ [x]) = tl outs @ [x]" for x
    by (cases outs) simp_all
  moreover have "length queue = 10 \<Longrightarrow> tl (queue @ [entry]) = tl queue @ [entry]"
    by (cases queue) simp_all
  ultimately show ?thesis
    by (simp add: withinCaps_def list_all_iff isPreview_def pushOutput_def pushTool_def Let_def)
qed

theorem progress_queues_bounded_witness:
  "snd (runAgent asciiLower \<lparr>signal = Some False, retry = None, resourceLimits = None\<rparr>
          [[StdoutLine (MessageEnd (Some \<lparr>role = js ''assistant'',
                content = [TextPart (replicate 101 97)], stopReason = None,
                errorMessage = None\<rparr>)),
            SignalAbort,
            StdoutLine (ToolExecutionStart (Some (js ''read'')) (js ''a.txt'')),
            StdoutLine ToolExecutionEnd,
            ProcClose None]]) =
     [\<lparr>status = Running, recentTools = [], recentOutput = [replicate 100 97 @ js ''...''],
        toolCount = 0, currentTool = None, currentToolArgs = None\<rparr>,
      \<lparr>status = Aborted, recentTools = [], recentOutput = [replicate 100 97 @ js ''...''],
        toolCount = 0, currentTool = None, currentToolArgs = None\<rparr>,
      \<lparr>status = Aborted, recentTools = [], recentOutput = [replicate 100 97 @ js ''...''],
        toolCount = 0, currentTool = None, currentToolArgs = None\<rparr>,
      \<lparr>status = Aborted, recentTools = [], recentOutput = [replicate 100 97 @ js ''...''],
        toolCount = 0, currentTool = Some (js ''read''), currentToolArgs = Some (js ''a.txt'')\<rparr>,
      \<lparr>status = Aborted, recentTools = [(js ''read'', js ''a.txt'')],
        recentOutput = [replicate 100 97 @ js ''...''],
        toolCount = 1, currentTool = None, currentToolArgs = None\<rparr>] \<and>
   list_all (\<lambda>p. length (recentTools p) \<le> 10 \<and> length (recentOutput p) \<le> 5 \<and>
                 list_all (\<lambda>out. length out \<le> 100 \<or>
                                  (length out = 103 \<and> drop 100 out = js ''...''))
                   (recentOutput p))
     (snd (runAgent asciiLower \<lparr>signal = Some False, retry = None, resourceLimits = None\<rparr>
          [[StdoutLine (MessageEnd (Some \<lparr>role = js ''assistant'',
                content = [TextPart (replicate 101 97)], stopReason = None,
                errorMessage = None\<rparr>)),
            SignalAbort,
            StdoutLine (ToolExecutionStart (Some (js ''read'')) (js ''a.txt'')),
            StdoutLine ToolExecutionEnd,
            ProcClose None]])) \<and>
   pushOutput (replicate 5 (js ''old'')) (TextPart (replicate 101 97)) =
     replicate 4 (js ''old'') @ [replicate 100 97 @ js ''...''] \<and>
   pushTool (replicate 10 (js ''read'', [])) (js ''bash'', []) =
     replicate 9 (js ''read'', []) @ [(js ''bash'', [])]"
proof -
  let ?opts = "\<lparr>signal = Some False, retry = None, resourceLimits = None\<rparr>"
  let ?evs = "[[StdoutLine (MessageEnd (Some \<lparr>role = js ''assistant'',
                content = [TextPart (replicate 101 97)], stopReason = None,
                errorMessage = None\<rparr>)),
            SignalAbort,
            StdoutLine (ToolExecutionStart (Some (js ''read'')) (js ''a.txt'')),
            StdoutLine ToolExecutionEnd,
            ProcClose None]]"
  have long: "trimTruthy (replicate 101 97)"
    by (simp add: trimTruthy_def isWhiteSpace_def list_all_iff)
  have preview: "outputPreview (replicate 101 97) = replicate 100 97 @ js ''...''"
    by (simp add: outputPreview_def)
  have run: "snd (runAgent asciiLower ?opts ?evs) =
     [\<lparr>status = Running, recentTools = [], recentOutput = [replicate 100 97 @ js ''...''],
        toolCount = 0, currentTool = None, currentToolArgs = None\<rparr>,
      \<lparr>status = Aborted, recentTools = [], recentOutput = [replicate 100 97 @ js ''...''],
        toolCount = 0, currentTool = None, currentToolArgs = None\<rparr>,
      \<lparr>status = Aborted, recentTools = [], recentOutput = [replicate 100 97 @ js ''...''],
        toolCount = 0, currentTool = None, currentToolArgs = None\<rparr>,
      \<lparr>status = Aborted, recentTools = [], recentOutput = [replicate 100 97 @ js ''...''],
        toolCount = 0, currentTool = Some (js ''read''), currentToolArgs = Some (js ''a.txt'')\<rparr>,
      \<lparr>status = Aborted, recentTools = [(js ''read'', js ''a.txt'')],
        recentOutput = [replicate 100 97 @ js ''...''],
        toolCount = 1, currentTool = None, currentToolArgs = None\<rparr>]"
    by (simp add: runAgent_def runAgentOnce_def initRun_def procStep_def processLine_def
        emitProgress_def killProc_def nodeAbort_def combinedAborted_def resolveWith_def
        finishRun_def truthyStr_def truthyNum_def limitOf_def enforced_def
        pushTool_def pushOutput_def long preview js_def Let_def)
  note inst = progress_queues_bounded [of asciiLower ?opts ?evs "replicate 5 (js ''old'')"
      "replicate 101 97" "replicate 10 (js ''read'', [])" "(js ''bash'', [])"]
  from inst have caps: "list_all (\<lambda>p. length (recentTools p) \<le> 10 \<and> length (recentOutput p) \<le> 5 \<and>
                 list_all (\<lambda>out. length out \<le> 100 \<or>
                                  (length out = 103 \<and> drop 100 out = js ''...''))
                   (recentOutput p))
     (snd (runAgent asciiLower ?opts ?evs))"
    unfolding list_all_iff by blast
  have "length (replicate 5 (js ''old'')) = 5" by simp
  with inst long have "pushOutput (replicate 5 (js ''old'')) (TextPart (replicate 101 97)) =
     tl (replicate 5 (js ''old'')) @ [outputPreview (replicate 101 97)]"
    by blast
  also have "tl (replicate 5 (js ''old'')) = replicate 4 (js ''old'')"
    by (simp add: numeral_eq_Suc)
  finally have outs: "pushOutput (replicate 5 (js ''old'')) (TextPart (replicate 101 97)) =
     replicate 4 (js ''old'') @ [replicate 100 97 @ js ''...'']"
    by (simp only: preview)
  have "length (replicate 10 (js ''read'', [] :: jsstring)) = 10" by simp
  with inst have "pushTool (replicate 10 (js ''read'', [])) (js ''bash'', []) =
     tl (replicate 10 (js ''read'', [])) @ [(js ''bash'', [])]"
    by blast
  also have "tl (replicate 10 (js ''read'', [] :: jsstring)) = replicate 9 (js ''read'', [])"
    by (simp add: numeral_eq_Suc)
  finally show ?thesis using run caps outs by simp
qed

section \<open>Properties of the resource guards in a run\<close>

text \<open>
  The two guard classes do what their comments say when they are driven: a started monitor
  aborts on a sample above its limit, and a tracker aborts when a tool call starts beyond
  its limit.
\<close>

lemma monitorTick_started_aborts:
  "0 < limit \<Longrightarrow> limit * (1024 * 1024) < heapUsed \<Longrightarrow>
     monitorAborted (monitorTick heapUsed (monitorStart (newMemoryMonitor limit)))"
  by (simp add: monitorTick_def monitorStart_def monitorStop_def newMemoryMonitor_def)

lemma startTool_beyond_limit_aborts:
  "0 < trackerLimit t \<Longrightarrow> currentCalls t = trackerLimit t \<Longrightarrow> trackerAborted (fst (startTool t))"
  by (simp add: startTool_def Let_def)

text \<open>
  In a run, however, the monitor is never started and no handler calls the tracker: whatever
  the events, the interval of the monitor is not set, its signal has not fired, and the
  tracker counts no call.
\<close>

lemma processLine_guards:
  "memoryMonitor (processLine e st) = memoryMonitor st \<and>
   toolCallTracker (processLine e st) = toolCallTracker st \<and>
   taskResult (processLine e st) = taskResult st"
  by (cases e) (auto simp: processLine_def emitProgress_def Let_def split: option.splits)

lemma nodeAbort_guards:
  "memoryMonitor (nodeAbort b st) = memoryMonitor st \<and>
   toolCallTracker (nodeAbort b st) = toolCallTracker st"
  by (simp add: nodeAbort_def resolveWith_def finishRun_def Let_def)

lemma resolveWith_guards:
  "memoryMonitor (resolveWith code st) = memoryMonitor st \<and>
   toolCallTracker (resolveWith code st) = toolCallTracker st"
  by (simp add: resolveWith_def finishRun_def Let_def)

lemma killProc_guards:
  "memoryMonitor (killProc st) = memoryMonitor st \<and>
   toolCallTracker (killProc st) = toolCallTracker st"
  by (simp add: killProc_def emitProgress_def)

lemma guardsIdle_procStep:
  assumes "guardsIdle st"
  shows "guardsIdle (procStep opts st ev)"
proof (cases ev)
  case (MemoryInterval h)
  with assms show ?thesis
    by (auto simp: procStep_def guardsIdle_def nodeAbort_guards monitorTick_def
        split: option.splits)
qed (use assms in
    \<open>auto simp: procStep_def guardsIdle_def processLine_guards nodeAbort_guards
       resolveWith_guards killProc_guards split: option.splits\<close>)

lemma guardsIdle_initRun: "guardsIdle (initRun opts)"
  by (simp add: initRun_def guardsIdle_def newMemoryMonitor_def newToolCallTracker_def
      nodeAbort_guards killProc_guards Let_def)

lemma guardsIdle_run: "guardsIdle (foldl (procStep opts) (initRun opts) evs)"
proof -
  have "guardsIdle st \<Longrightarrow> guardsIdle (foldl (procStep opts) st evs)" for st
    by (induction evs arbitrary: st) (simp_all add: guardsIdle_procStep)
  then show ?thesis by (simp add: guardsIdle_initRun)
qed

text \<open>
  The status \<open>aborted\<close> is set by \<open>killProc\<close> alone, which listens to the caller's signal
  alone: without a caller's signal no run is marked aborted.
\<close>

lemma notMarkedAborted_finishRun:
  "status (progress st) \<noteq> Aborted \<Longrightarrow> notMarkedAborted (finishRun st code)"
  by (simp add: notMarkedAborted_def finishRun_def Let_def)

lemma notMarkedAborted_resolveWith:
  "notMarkedAborted st \<Longrightarrow> notMarkedAborted (resolveWith code st)"
  using notMarkedAborted_finishRun [of st code]
  by (simp add: resolveWith_def notMarkedAborted_def)

lemma notMarkedAborted_nodeAbort:
  "notMarkedAborted st \<Longrightarrow> notMarkedAborted (nodeAbort b st)"
  by (simp add: nodeAbort_def notMarkedAborted_resolveWith)

lemma processLine_status:
  "status (progress (processLine e st)) = status (progress st) \<and>
   taskResult (processLine e st) = taskResult st"
proof (cases e)
  case (MessageEnd m)
  then show ?thesis
    by (cases m) (simp_all add: processLine_def emitProgress_def Let_def)
next
  case (ToolResultEnd m)
  then show ?thesis
    by (cases m) (simp_all add: processLine_def emitProgress_def Let_def)
qed (simp_all add: processLine_def emitProgress_def Let_def)

lemma notMarkedAborted_procStep:
  assumes "signal opts = None" and inv: "notMarkedAborted st"
  shows "notMarkedAborted (procStep opts st ev)"
proof (cases ev)
  case (StdoutLine e)
  with inv show ?thesis
    by (simp add: procStep_def notMarkedAborted_def processLine_status)
next
  case (StderrData d)
  with inv show ?thesis by (simp add: procStep_def notMarkedAborted_def)
next
  case ProcExited
  with inv show ?thesis by (simp add: procStep_def notMarkedAborted_def)
next
  case (ProcClose code)
  from inv have "notMarkedAborted (st\<lparr>childExited := True\<rparr>)"
    by (simp add: notMarkedAborted_def)
  from notMarkedAborted_resolveWith [OF this] ProcClose show ?thesis
    by (simp add: procStep_def)
next
  case ProcError
  from inv have "notMarkedAborted (st\<lparr>childExited := True\<rparr>)"
    by (simp add: notMarkedAborted_def)
  from notMarkedAborted_resolveWith [OF this] ProcError show ?thesis
    by (simp add: procStep_def)
next
  case SignalAbort
  with inv assms(1) show ?thesis by (simp add: procStep_def)
next
  case DurationElapsed
  from inv have "notMarkedAborted (st\<lparr>durationFired := True\<rparr>)"
    by (simp add: notMarkedAborted_def)
  from notMarkedAborted_nodeAbort [OF this] DurationElapsed inv show ?thesis
    by (simp add: procStep_def)
next
  case (MemoryInterval h)
  from inv have "notMarkedAborted (st\<lparr>memoryMonitor := m\<rparr>)" for m
    by (simp add: notMarkedAborted_def)
  from notMarkedAborted_nodeAbort [OF this] MemoryInterval inv show ?thesis
    by (simp add: procStep_def split: option.splits)
qed

lemma no_signal_status:
  assumes "signal opts = None"
  shows "notMarkedAborted (foldl (procStep opts) (initRun opts) evs)"
proof -
  have "notMarkedAborted st \<Longrightarrow> notMarkedAborted (foldl (procStep opts) st evs)" for st
  proof (induction evs arbitrary: st)
    case Nil
    then show ?case by simp
  next
    case (Cons ev evs)
    from Cons.IH [OF notMarkedAborted_procStep [OF assms Cons.prems]] show ?case by simp
  qed
  moreover from assms have "notMarkedAborted (initRun opts)"
    by (simp add: initRun_def notMarkedAborted_def Let_def)
  ultimately show ?thesis by blast
qed

lemma no_signal_not_aborted:
  assumes "signal opts = None" and "runAgentOnce opts evs = (Some result, em)"
  shows "\<not> resAborted result"
  using assms(2) no_signal_status [OF assms(1), of evs]
  by (simp add: runAgentOnce_def notMarkedAborted_def Let_def)

text \<open>
  An attempt that starts after the caller's signal has aborted is in the state of an attempt
  whose first event is the abort of the signal.
\<close>

lemma initRun_aborted_at_call:
  "initRun (opts\<lparr>signal := Some True\<rparr>) = procStep (opts\<lparr>signal := Some False\<rparr>)
     (initRun (opts\<lparr>signal := Some False\<rparr>)) SignalAbort"
  by (simp add: initRun_def procStep_def combinedAborted_def limitOf_def enforced_def
      newMemoryMonitor_def killProc_def emitProgress_def nodeAbort_def Let_def)

text \<open>
  Claim C1. The result's \<open>aborted\<close> flag is to be true exactly when cancellation fired for
  any reason, a breach of a resource limit being recorded in \<open>error\<close> with its reason. The
  code does otherwise: with a duration limit of 1000 ms, no caller's signal, and a child
  still running when the limit is reached, the duration signal fires and the child is
  killed, but the result is not marked aborted and its error is \<open>"Exit code: 1"\<close>.
\<close>

theorem runAgent_duration_breach:
  "fst (runAgent asciiLower
          \<lparr>signal = None, retry = None,
           resourceLimits = Some \<lparr>maxMemoryMB = None, maxDurationMs = Some 1000,
                                  maxConcurrentToolCalls = None, enforceLimits = True\<rparr>\<rparr>
          [[DurationElapsed]]) =
     Some (Some \<lparr>resExitCode = 1, resStderr = [], resAborted = False,
                 resError = Some (js ''Exit code: 1'')\<rparr>) \<and>
   durationFired (foldl (procStep
          \<lparr>signal = None, retry = None,
           resourceLimits = Some \<lparr>maxMemoryMB = None, maxDurationMs = Some 1000,
                                  maxConcurrentToolCalls = None, enforceLimits = True\<rparr>\<rparr>)
        (initRun \<lparr>signal = None, retry = None,
           resourceLimits = Some \<lparr>maxMemoryMB = None, maxDurationMs = Some 1000,
                                  maxConcurrentToolCalls = None, enforceLimits = True\<rparr>\<rparr>)
        [DurationElapsed])"
  by (simp add: runAgent_def runAgentOnce_def initRun_def procStep_def nodeAbort_def
      combinedAborted_def resolveWith_def finishRun_def
      truthyStr_def truthyNum_def limitOf_def enforced_def showInt_def js_def Let_def)

text \<open>
  Claim C2. With \<open>enforceLimits\<close> set, a memory limit and a limit on concurrent tool calls
  are to cancel the run when they are exceeded. The code does otherwise: with both limits
  at 1, a heap of 5 MiB at two successive periods of the monitor and two tool calls started
  without an end, the run is not cancelled and the child's own exit with code 0 gives a
  result with no error that is not aborted.
\<close>

theorem runAgent_limits_not_enforced:
  "fst (runAgent asciiLower
          \<lparr>signal = None, retry = None,
           resourceLimits = Some \<lparr>maxMemoryMB = Some 1, maxDurationMs = None,
                                  maxConcurrentToolCalls = Some 1, enforceLimits = True\<rparr>\<rparr>
          [[MemoryInterval (5 * 1024 * 1024),
            StdoutLine (ToolExecutionStart (Some (js ''read'')) (js ''a.txt'')),
            StdoutLine (ToolExecutionStart (Some (js ''bash'')) (js ''ls'')),
            MemoryInterval (5 * 1024 * 1024),
            ProcClose (Some 0)]]) =
     Some (Some \<lparr>resExitCode = 0, resStderr = [], resAborted = False, resError = None\<rparr>)"
  by (simp add: runAgent_def runAgentOnce_def initRun_def procStep_def processLine_def
      emitProgress_def nodeAbort_def combinedAborted_def resolveWith_def finishRun_def
      monitorTick_def newMemoryMonitor_def newToolCallTracker_def
      truthyStr_def truthyNum_def limitOf_def enforced_def js_def Let_def)

section \<open>Properties of the bounded map\<close>

lemma workerLimit_code:
  "workerLimit concurrency n = nat (max 1 (min (codeNormalized concurrency n) (int n)))"
proof (cases concurrency)
  case (Finite x)
  have "(0 < \<lfloor>x\<rfloor>) = (1 \<le> x)" by linarith
  with Finite show ?thesis
    by (auto simp: workerLimit_def codeNormalized_def Let_def)
qed (simp_all add: workerLimit_def codeNormalized_def)

lemma awaitedIn_update:
  assumes "w < length ws"
  shows "awaitedIn None (ws[w := x]) i = (x = Awaiting i \<or> awaitedIn (Some w) ws i)"
proof
  assume "awaitedIn None (ws[w := x]) i"
  then obtain w' where w': "w' < length ws" "(ws[w := x]) ! w' = Awaiting i"
    by (auto simp: awaitedIn_def)
  show "x = Awaiting i \<or> awaitedIn (Some w) ws i"
  proof (cases "w' = w")
    case True
    with w' show ?thesis by simp
  next
    case False
    with w' have "w' < length ws \<and> Some w' \<noteq> Some w \<and> ws ! w' = Awaiting i" by simp
    then show ?thesis unfolding awaitedIn_def by blast
  qed
next
  assume "x = Awaiting i \<or> awaitedIn (Some w) ws i"
  then show "awaitedIn None (ws[w := x]) i"
  proof
    assume "x = Awaiting i"
    with assms have "w < length (ws[w := x]) \<and> Some w \<noteq> None \<and> (ws[w := x]) ! w = Awaiting i"
      by simp
    then show ?thesis unfolding awaitedIn_def by blast
  next
    assume "awaitedIn (Some w) ws i"
    then obtain w' where "w' < length ws" "w' \<noteq> w" "ws ! w' = Awaiting i"
      by (auto simp: awaitedIn_def)
    then have "w' < length (ws[w := x]) \<and> Some w' \<noteq> None \<and> (ws[w := x]) ! w' = Awaiting i"
      by simp
    then show ?thesis unfolding awaitedIn_def by blast
  qed
qed

lemma awaitedIn_extend: "awaitedIn (Some (length ws)) (ws @ [y]) i = awaitedIn None ws i"
proof
  assume "awaitedIn (Some (length ws)) (ws @ [y]) i"
  then obtain w where "w < Suc (length ws)" "w \<noteq> length ws" "(ws @ [y]) ! w = Awaiting i"
    by (auto simp: awaitedIn_def)
  then have "w < length ws \<and> Some w \<noteq> None \<and> ws ! w = Awaiting i"
    by (simp add: nth_append)
  then show "awaitedIn None ws i" unfolding awaitedIn_def by blast
next
  assume "awaitedIn None ws i"
  then obtain w where "w < length ws" "ws ! w = Awaiting i"
    by (auto simp: awaitedIn_def)
  then have "w < length (ws @ [y]) \<and> Some w \<noteq> Some (length ws) \<and> (ws @ [y]) ! w = Awaiting i"
    by (simp add: nth_append)
  then show "awaitedIn (Some (length ws)) (ws @ [y]) i" unfolding awaitedIn_def by blast
qed

lemma awaitedIn_running:
  assumes "w < length ws" and "ws ! w = Awaiting j"
  shows "awaitedIn None ws i = (i = j \<or> awaitedIn (Some w) ws i)"
proof -
  from assms have "ws[w := Awaiting j] = ws" by (simp add: list_update_same_conv)
  with awaitedIn_update [OF assms(1), of "Awaiting j" i] show ?thesis by auto
qed

lemma poolInvOn_extend:
  "poolInvOn None fn items res nxt ws cs \<Longrightarrow>
     poolInvOn (Some (length ws)) fn items res nxt (ws @ [y]) cs"
  by (simp add: poolInvOn_def awaitedIn_extend)

lemma poolInvOn_stop:
  "poolInvOn (Some w) fn items res nxt ws cs \<Longrightarrow> w < length ws \<Longrightarrow> x \<in> {Returned, Thrown} \<Longrightarrow>
     poolInvOn None fn items res nxt (ws[w := x]) cs"
  by (auto simp: poolInvOn_def awaitedIn_update)

lemma poolInvOn_last:
  assumes "poolInvOn (Some w) fn items res nxt ws cs" and "w < length ws" and "length items \<le> nxt"
  shows "poolInvOn None fn items res (Suc nxt) (ws[w := Returned]) cs"
proof -
  from assms(3) have "min (Suc nxt) (length items) = min nxt (length items)" by simp
  with assms(1,2) show ?thesis
    by (auto simp: poolInvOn_def awaitedIn_update)
qed

lemma poolInvOn_claim:
  assumes inv: "poolInvOn (Some w) fn items res nxt ws cs" and w: "w < length ws"
    and less: "nxt < length items"
  shows "poolInvOn None fn items res (Suc nxt) (ws[w := Awaiting nxt]) (cs @ [nxt])"
proof -
  from less have m: "min (Suc nxt) (length items) = Suc nxt" "min nxt (length items) = nxt"
    by simp_all
  from inv have a: "length res = length items" "cs = [0 ..< nxt]"
    "\<And>i. awaitedIn (Some w) ws i \<Longrightarrow> i < nxt"
    "\<And>i v. i < length items \<Longrightarrow> res ! i = Some v \<Longrightarrow> i < nxt \<and> fn (items ! i) i = Inr v"
    "\<And>i. i < nxt \<Longrightarrow> awaitedIn (Some w) ws i \<or> res ! i = settled (fn (items ! i) i)"
    by (simp_all add: poolInvOn_def m)
  have "res ! nxt = None"
    using a(4) [of nxt] less by (cases "res ! nxt") auto
  show ?thesis
    unfolding poolInvOn_def m awaitedIn_update [OF w]
  proof (intro conjI)
    show "length res = length items" by (rule a(1))
    show "cs @ [nxt] = [0 ..< Suc nxt]" using a(2) by simp
    show "\<forall>i. Awaiting nxt = Awaiting i \<or> awaitedIn (Some w) ws i \<longrightarrow> i < Suc nxt"
    proof (intro allI impI)
      fix i assume "Awaiting nxt = Awaiting i \<or> awaitedIn (Some w) ws i"
      then show "i < Suc nxt"
      proof
        assume "Awaiting nxt = Awaiting i"
        then show ?thesis by simp
      next
        assume "awaitedIn (Some w) ws i"
        from a(3) [OF this] show ?thesis by simp
      qed
    qed
    show "\<forall>i < length items. \<forall>v. res ! i = Some v \<longrightarrow> i < Suc nxt \<and> fn (items ! i) i = Inr v"
      using a(4) less_SucI by blast
    show "\<forall>i < Suc nxt. (Awaiting nxt = Awaiting i \<or> awaitedIn (Some w) ws i) \<or>
        res ! i = settled (fn (items ! i) i)"
    proof (intro allI impI)
      fix i assume "i < Suc nxt"
      then show "(Awaiting nxt = Awaiting i \<or> awaitedIn (Some w) ws i) \<or>
          res ! i = settled (fn (items ! i) i)"
        using a(5) [of i] by (cases "i = nxt") auto
    qed
  qed
qed

lemma poolInvOn_value:
  assumes inv: "poolInvOn None fn items res nxt ws cs" and w: "w < length ws"
    and aw: "ws ! w = Awaiting j" and val: "fn (items ! j) j = Inr v"
  shows "poolInvOn (Some w) fn items (res[j := Some v]) nxt ws cs"
proof -
  note r = awaitedIn_running [OF w aw]
  from inv have a: "length res = length items" "cs = [0 ..< min nxt (length items)]"
    "\<And>i. i = j \<or> awaitedIn (Some w) ws i \<Longrightarrow> i < min nxt (length items)"
    "\<And>i u. i < length items \<Longrightarrow> res ! i = Some u \<Longrightarrow> i < nxt \<and> fn (items ! i) i = Inr u"
    "\<And>i. i < min nxt (length items) \<Longrightarrow>
        (i = j \<or> awaitedIn (Some w) ws i) \<or> res ! i = settled (fn (items ! i) i)"
    by (auto simp: poolInvOn_def r)
  from a(3) [of j] have j: "j < nxt" "j < length items" by simp_all
  show ?thesis
    unfolding poolInvOn_def
  proof (intro conjI)
    show "length (res[j := Some v]) = length items" using a(1) by simp
    show "cs = [0 ..< min nxt (length items)]" by (rule a(2))
    show "\<forall>i. awaitedIn (Some w) ws i \<longrightarrow> i < min nxt (length items)"
      using a(3) by simp
    show "\<forall>i < length items. \<forall>u. res[j := Some v] ! i = Some u \<longrightarrow>
        i < nxt \<and> fn (items ! i) i = Inr u"
    proof (intro allI impI)
      fix i u assume "i < length items" "res[j := Some v] ! i = Some u"
      then show "i < nxt \<and> fn (items ! i) i = Inr u"
        using a(4) [of i u] a(1) j val by (cases "i = j") auto
    qed
    show "\<forall>i < min nxt (length items).
        awaitedIn (Some w) ws i \<or> res[j := Some v] ! i = settled (fn (items ! i) i)"
    proof (intro allI impI)
      fix i assume "i < min nxt (length items)"
      then show "awaitedIn (Some w) ws i \<or> res[j := Some v] ! i = settled (fn (items ! i) i)"
        using a(5) [of i] a(1) j val by (cases "i = j") (auto simp: settled_def)
    qed
  qed
qed

lemma poolInvOn_error:
  assumes inv: "poolInvOn None fn items res nxt ws cs" and w: "w < length ws"
    and aw: "ws ! w = Awaiting j" and err: "fn (items ! j) j = Inl e"
  shows "poolInvOn (Some w) fn items res nxt ws cs"
proof -
  note r = awaitedIn_running [OF w aw]
  from inv have a: "length res = length items" "cs = [0 ..< min nxt (length items)]"
    "\<And>i. i = j \<or> awaitedIn (Some w) ws i \<Longrightarrow> i < min nxt (length items)"
    "\<And>i u. i < length items \<Longrightarrow> res ! i = Some u \<Longrightarrow> i < nxt \<and> fn (items ! i) i = Inr u"
    "\<And>i. i < min nxt (length items) \<Longrightarrow>
        (i = j \<or> awaitedIn (Some w) ws i) \<or> res ! i = settled (fn (items ! i) i)"
    by (auto simp: poolInvOn_def r)
  from a(3) [of j] have j: "j < nxt" "j < length items" by simp_all
  have none: "res ! j = None"
    using a(4) [of j] j err by (cases "res ! j") auto
  show ?thesis
    unfolding poolInvOn_def
  proof (intro conjI)
    show "length res = length items" by (rule a(1))
    show "cs = [0 ..< min nxt (length items)]" by (rule a(2))
    show "\<forall>i. awaitedIn (Some w) ws i \<longrightarrow> i < min nxt (length items)"
      using a(3) by simp
    show "\<forall>i < length items. \<forall>u. res ! i = Some u \<longrightarrow> i < nxt \<and> fn (items ! i) i = Inr u"
      using a(4) by simp
    show "\<forall>i < min nxt (length items).
        awaitedIn (Some w) ws i \<or> res ! i = settled (fn (items ! i) i)"
    proof (intro allI impI)
      fix i assume "i < min nxt (length items)"
      then show "awaitedIn (Some w) ws i \<or> res ! i = settled (fn (items ! i) i)"
        using a(5) [of i] none err by (cases "i = j") (auto simp: settled_def)
    qed
  qed
qed

lemma workerRun_cases:
  assumes "workerRun n st = (st1, ws)"
  obtains (stop) "st1 = st" "ws = Returned"
  | (last) "st1 = st\<lparr>nextIndex := Suc (nextIndex st)\<rparr>" "ws = Returned" "n \<le> nextIndex st"
  | (claim) "st1 = st\<lparr>nextIndex := Suc (nextIndex st), calls := calls st @ [nextIndex st]\<rparr>"
      "ws = Awaiting (nextIndex st)" "nextIndex st < n"
  using assms by (auto simp: workerRun_def Let_def split: if_splits)

lemma poolInv_placed:
  assumes inv: "poolInvBut (Some w) fn items st" and w: "w < length (workers st)"
    and run: "workerRun (length items) st = (st1, ws)"
  shows "poolInvBut None fn items (st1\<lparr>workers := (workers st1)[w := ws]\<rparr>)"
  using run
proof (cases rule: workerRun_cases)
  case stop
  with poolInvOn_stop [of w fn items "results st" "nextIndex st" "workers st" "calls st" Returned]
    inv w show ?thesis
    by (simp add: poolInvBut_def)
next
  case last
  with poolInvOn_last [of w fn items "results st" "nextIndex st" "workers st" "calls st"]
    inv w show ?thesis
    by (simp add: poolInvBut_def)
next
  case claim
  with poolInvOn_claim [of w fn items "results st" "nextIndex st" "workers st" "calls st"]
    inv w show ?thesis
    by (simp add: poolInvBut_def)
qed

lemma poolInv_continue:
  assumes "poolInvBut (Some w) fn items st" and "w < length (workers st)"
  shows "poolInvBut None fn items (continueWorker (length items) w st)"
proof -
  obtain st1 ws where run: "workerRun (length items) st = (st1, ws)"
    by (cases "workerRun (length items) st")
  from poolInv_placed [OF assms run] run show ?thesis
    by (simp add: continueWorker_def)
qed

lemma workerRun_workers: "workerRun n st = (st1, ws) \<Longrightarrow> workers st1 = workers st"
  by (auto simp: workerRun_def Let_def split: if_splits)

lemma poolInv_spawned:
  assumes inv: "poolInvBut None fn items st"
    and run: "workerRun (length items) st = (st1, ws)"
  shows "poolInvBut None fn items (st1\<lparr>workers := workers st1 @ [ws]\<rparr>)"
proof -
  let ?st = "st\<lparr>workers := workers st @ [Returned]\<rparr>"
  from inv have "poolInvBut (Some (length (workers st))) fn items ?st"
    by (simp add: poolInvBut_def poolInvOn_extend)
  moreover have "length (workers st) < length (workers ?st)" by simp
  moreover from run have "workerRun (length items) ?st = (st1\<lparr>workers := workers st @ [Returned]\<rparr>, ws)"
    by (auto simp: workerRun_def Let_def split: if_splits)
  ultimately have "poolInvBut None fn items
      (st1\<lparr>workers := workers st @ [Returned], workers := (workers st @ [Returned])[length (workers st) := ws]\<rparr>)"
    using poolInv_placed [of "length (workers st)" fn items ?st "st1\<lparr>workers := workers st @ [Returned]\<rparr>" ws]
    by simp
  with workerRun_workers [OF run] show ?thesis by simp
qed

lemma poolInv_spawnWorkers:
  "poolInvBut None fn items st \<Longrightarrow> poolInvBut None fn items (spawnWorkers (length items) k st)"
proof (induction k arbitrary: st)
  case 0
  then show ?case by simp
next
  case (Suc k)
  obtain st1 ws where run: "workerRun (length items) st = (st1, ws)"
    by (cases "workerRun (length items) st")
  from Suc.IH [OF poolInv_spawned [OF Suc.prems run]] run show ?case by simp
qed

lemma spawnWorkers_length:
  "length (workers (spawnWorkers n k st)) = length (workers st) + k"
proof (induction k arbitrary: st)
  case 0
  then show ?case by simp
next
  case (Suc k)
  obtain st1 ws where run: "workerRun n st = (st1, ws)"
    by (cases "workerRun n st")
  with Suc.IH [of "st1\<lparr>workers := workers st1 @ [ws]\<rparr>"] workerRun_workers [OF run]
  show ?case by simp
qed

lemma poolInv_initPool: "poolInvBut None fn items (initPool (length items) sig)"
  by (simp add: poolInvBut_def poolInvOn_def initPool_def awaitedIn_def)

lemma continueWorker_length: "length (workers (continueWorker n w st)) = length (workers st)"
proof -
  obtain st1 ws where run: "workerRun n st = (st1, ws)" by (cases "workerRun n st")
  with workerRun_workers [OF run] show ?thesis by (simp add: continueWorker_def)
qed

lemma poolStep_length: "length (workers (poolStep fn items sig st ev)) = length (workers st)"
  by (cases ev)
    (auto simp: poolStep_def continueWorker_length split: WorkerState.splits sum.splits option.splits)

lemma poolInv_settle:
  assumes inv: "poolInvBut None fn items st"
  shows "poolInvBut None fn items (poolStep fn items sig st (Settle w))"
proof (cases "w < length (workers st)")
  case False
  with inv show ?thesis by (simp add: poolStep_def)
next
  case w: True
  show ?thesis
  proof (cases "workers st ! w")
    case (Awaiting j)
    show ?thesis
    proof (cases "fn (items ! j) j")
      case (Inr v)
      from inv w Awaiting Inr have "poolInvBut (Some w) fn items (st\<lparr>results := (results st)[j := Some v]\<rparr>)"
        by (simp add: poolInvBut_def poolInvOn_value)
      from poolInv_continue [OF this] w Awaiting Inr show ?thesis
        by (simp add: poolStep_def)
    next
      case (Inl e)
      from inv w Awaiting Inl have but: "poolInvBut (Some w) fn items st"
        unfolding poolInvBut_def by (rule poolInvOn_error)
      show ?thesis
      proof (cases "internalAborted st \<or> externalAborted st")
        case True
        with poolInv_continue [OF but w] w Awaiting Inl show ?thesis
          by (simp add: poolStep_def)
      next
        case False
        from but w have "poolInvOn None fn items (results st) (nextIndex st)
            ((workers st)[w := Thrown]) (calls st)"
          unfolding poolInvBut_def by (intro poolInvOn_stop) simp_all
        with False w Awaiting Inl show ?thesis
          by (simp add: poolStep_def poolInvBut_def)
      qed
    qed
  next
    case Returned
    with inv w show ?thesis by (simp add: poolStep_def)
  next
    case Thrown
    with inv w show ?thesis by (simp add: poolStep_def)
  qed
qed

lemma poolInv_poolStep:
  assumes "poolInvBut None fn items st"
  shows "poolInvBut None fn items (poolStep fn items sig st ev)"
proof (cases ev)
  case (Settle w)
  with assms show ?thesis by (simp add: poolInv_settle)
next
  case ExternalAbort
  with assms show ?thesis
    by (cases sig) (simp_all add: poolStep_def poolInvBut_def)
next
  case Resume
  with assms show ?thesis by (simp add: poolStep_def)
qed

lemma runPool_inv:
  assumes "runPool fn items sig st schedule = Some st'" and "poolInvBut None fn items st"
  shows "poolInvBut None fn items st' \<and> resumeMap st' \<noteq> None \<and>
         length (workers st') = length (workers st)"
  using assms
proof (induction schedule arbitrary: st)
  case Nil
  then show ?case by (auto split: if_splits)
next
  case (Cons ev evs)
  show ?case
  proof (cases "ev = Resume \<and> resumeMap st \<noteq> None")
    case True
    with Cons.prems show ?thesis by auto
  next
    case False
    with Cons.prems have "runPool fn items sig (poolStep fn items sig st ev) evs = Some st'"
      by auto
    from Cons.IH [OF this poolInv_poolStep [OF Cons.prems(2)]] show ?thesis
      by (simp add: poolStep_length)
  qed
qed

lemma mapPool_inv:
  fixes fn :: "'a \<Rightarrow> nat \<Rightarrow> 'e + 'r"
  assumes "mapPool items concurrency fn sig schedule = Some st"
  shows "poolInvBut None fn items st \<and> resumeMap st \<noteq> None \<and>
         length (workers st) = workerLimit concurrency (length items)"
proof -
  let ?st0 = "spawnWorkers (length items) (workerLimit concurrency (length items))
      (initPool (length items) sig) :: ('e, 'r) Pool"
  have "poolInvBut None fn items ?st0"
    by (intro poolInv_spawnWorkers poolInv_initPool)
  from runPool_inv [OF _ this] assms have "poolInvBut None fn items st \<and> resumeMap st \<noteq> None \<and>
      length (workers st) = length (workers ?st0)"
    by (simp add: mapPool_def)
  then show ?thesis
    by (simp add: spawnWorkers_length initPool_def)
qed

lemma awaitedIn_set: "awaitedIn None ws i = (Awaiting i \<in> set ws)"
  by (auto simp: awaitedIn_def in_set_conv_nth)

lemma resumeMap_results: "resumeMap st = Some (Inr (res, aborted)) \<Longrightarrow> res = results st"
  by (auto simp: resumeMap_def split: option.splits if_splits)

text \<open>
  Claim C3, as the code has it. On no items \<open>mapWithConcurrencyLimit\<close> returns no results
  and \<open>aborted: false\<close>. Otherwise, when it returns, the results array has the length of the
  items; an entry that is set holds the value of \<open>fn\<close> for the item of its own index, which
  a worker claimed; the entry of a claimed index whose call is no longer awaited holds the
  value of that call (and is unset when the call threw); the entry of an index never claimed
  is unset; and the number of workers is \<open>max(1, min(normalized, items.length))\<close>, where
  \<open>normalized\<close> is the number of items when the concurrency is not finite or is below 1, and
  the floor of the concurrency otherwise.
\<close>

theorem mapWithConcurrencyLimit_results:
  fixes fn :: "'a \<Rightarrow> nat \<Rightarrow> 'e + 'r"
  shows
  "mapWithConcurrencyLimit [] concurrency fn sig schedule = Some (Inr ([], False)) \<and>
   (items \<noteq> [] \<and>
    mapWithConcurrencyLimit items concurrency fn sig schedule = Some (Inr (res, aborted)) \<longrightarrow>
      (\<exists>st. mapPool items concurrency fn sig schedule = Some st \<and> res = results st \<and>
         length res = length items \<and>
         (\<forall>i < length items.
            (\<forall>v. res ! i = Some v \<longrightarrow> i \<in> set (calls st) \<and> fn (items ! i) i = Inr v) \<and>
            (i \<in> set (calls st) \<and> Awaiting i \<notin> set (workers st) \<longrightarrow>
               res ! i = settled (fn (items ! i) i)) \<and>
            (i \<notin> set (calls st) \<longrightarrow> res ! i = None)) \<and>
         length (workers st) =
           nat (max 1 (min (codeNormalized concurrency (length items)) (int (length items))))))"
proof (intro conjI impI)
  show "mapWithConcurrencyLimit [] concurrency fn sig schedule = Some (Inr ([], False))"
    by (simp add: mapWithConcurrencyLimit_def)
next
  assume a: "items \<noteq> [] \<and>
    mapWithConcurrencyLimit items concurrency fn sig schedule = Some (Inr (res, aborted))"
  then obtain st where st: "mapPool items concurrency fn sig schedule = Some st"
    and r: "resumeMap st = Some (Inr (res, aborted))"
    by (auto simp: mapWithConcurrencyLimit_def split: option.splits)
  note res = resumeMap_results [OF r]
  from mapPool_inv [OF st] have inv: "poolInvOn None fn items res (nextIndex st) (workers st) (calls st)"
    and len: "length (workers st) = workerLimit concurrency (length items)"
    by (simp_all add: poolInvBut_def res)
  from inv have c: "calls st = [0 ..< min (nextIndex st) (length items)]"
    and l: "length res = length items"
    and v: "\<And>i v. i < length items \<Longrightarrow> res ! i = Some v \<Longrightarrow>
        i < nextIndex st \<and> fn (items ! i) i = Inr v"
    and s: "\<And>i. i < min (nextIndex st) (length items) \<Longrightarrow>
        Awaiting i \<in> set (workers st) \<or> res ! i = settled (fn (items ! i) i)"
    by (auto simp: poolInvOn_def awaitedIn_set)
  have "\<forall>i < length items.
      (\<forall>v. res ! i = Some v \<longrightarrow> i \<in> set (calls st) \<and> fn (items ! i) i = Inr v) \<and>
      (i \<in> set (calls st) \<and> Awaiting i \<notin> set (workers st) \<longrightarrow>
         res ! i = settled (fn (items ! i) i)) \<and>
      (i \<notin> set (calls st) \<longrightarrow> res ! i = None)"
  proof (intro allI impI)
    fix i assume i: "i < length items"
    have 1: "\<forall>v. res ! i = Some v \<longrightarrow> i \<in> set (calls st) \<and> fn (items ! i) i = Inr v"
      using v [OF i] i c by auto
    have 2: "i \<in> set (calls st) \<and> Awaiting i \<notin> set (workers st) \<longrightarrow>
        res ! i = settled (fn (items ! i) i)"
      using s [of i] c by auto
    have 3: "i \<notin> set (calls st) \<longrightarrow> res ! i = None"
      using 1 by (cases "res ! i") auto
    from 1 2 3 show "(\<forall>v. res ! i = Some v \<longrightarrow> i \<in> set (calls st) \<and> fn (items ! i) i = Inr v) \<and>
      (i \<in> set (calls st) \<and> Awaiting i \<notin> set (workers st) \<longrightarrow>
         res ! i = settled (fn (items ! i) i)) \<and>
      (i \<notin> set (calls st) \<longrightarrow> res ! i = None)"
      by blast
  qed
  then have "mapPool items concurrency fn sig schedule = Some st \<and> res = results st \<and>
         length res = length items \<and>
         (\<forall>i < length items.
            (\<forall>v. res ! i = Some v \<longrightarrow> i \<in> set (calls st) \<and> fn (items ! i) i = Inr v) \<and>
            (i \<in> set (calls st) \<and> Awaiting i \<notin> set (workers st) \<longrightarrow>
               res ! i = settled (fn (items ! i) i)) \<and>
            (i \<notin> set (calls st) \<longrightarrow> res ! i = None)) \<and>
         length (workers st) =
           nat (max 1 (min (codeNormalized concurrency (length items)) (int (length items))))"
    using st res l len by (simp only: workerLimit_code)
  then show "\<exists>st. mapPool items concurrency fn sig schedule = Some st \<and> res = results st \<and>
         length res = length items \<and>
         (\<forall>i < length items.
            (\<forall>v. res ! i = Some v \<longrightarrow> i \<in> set (calls st) \<and> fn (items ! i) i = Inr v) \<and>
            (i \<in> set (calls st) \<and> Awaiting i \<notin> set (workers st) \<longrightarrow>
               res ! i = settled (fn (items ! i) i)) \<and>
            (i \<notin> set (calls st) \<longrightarrow> res ! i = None)) \<and>
         length (workers st) =
           nat (max 1 (min (codeNormalized concurrency (length items)) (int (length items))))"
    by (rule exI)
qed

lemma mapPool_example:
  "mapPool [10, 5, 8, 2, 7 :: int] (Finite 4) (\<lambda>x i. Inr (2 * x) :: unit + int) None
      [Settle 2, Settle 0, Settle 2, Settle 1, Settle 3] =
   Some \<lparr>results = [Some 20, Some 10, Some 16, Some 4, Some 14], nextIndex = 9,
         workers = [Returned, Returned, Returned, Returned], internalAborted = False,
         externalAborted = False, firstError = None, calls = [0, 1, 2, 3, 4]\<rparr>"
  by code_simp

theorem mapWithConcurrencyLimit_results_witness:
  "mapWithConcurrencyLimit [10, 5, 8, 2, 7 :: int] (Finite 4) (\<lambda>x i. Inr (2 * x) :: unit + int) None
      [Settle 2, Settle 0, Settle 2, Settle 1, Settle 3] =
     Some (Inr ([Some 20, Some 10, Some 16, Some 4, Some 14], False)) \<and>
   [Some 20, Some 10, Some 16, Some 4, Some 14] ! 2 =
     settled ((\<lambda>x i. Inr (2 * x) :: unit + int) ([10, 5, 8, 2, 7] ! 2) 2)"
proof -
  let ?items = "[10, 5, 8, 2, 7 :: int]"
  let ?fn = "\<lambda>(x :: int) (i :: nat). Inr (2 * x) :: unit + int"
  let ?sched = "[Settle 2, Settle 0, Settle 2, Settle 1, Settle 3]"
  let ?res = "[Some 20, Some 10, Some 16, Some 4, Some (14 :: int)]"
  have run: "mapWithConcurrencyLimit ?items (Finite 4) ?fn None ?sched = Some (Inr (?res, False))"
    by code_simp
  have ne: "?items \<noteq> []" by simp
  note inst = mapWithConcurrencyLimit_results [of "Finite 4" ?fn None ?sched ?items ?res False]
  from inst ne run obtain st where st: "mapPool ?items (Finite 4) ?fn None ?sched = Some st"
    and every: "\<forall>i < length ?items.
            (\<forall>v. ?res ! i = Some v \<longrightarrow> i \<in> set (calls st) \<and> ?fn (?items ! i) i = Inr v) \<and>
            (i \<in> set (calls st) \<and> Awaiting i \<notin> set (workers st) \<longrightarrow>
               ?res ! i = settled (?fn (?items ! i) i)) \<and>
            (i \<notin> set (calls st) \<longrightarrow> ?res ! i = None)"
    by blast
  from st have "st = \<lparr>results = ?res, nextIndex = 9,
         workers = [Returned, Returned, Returned, Returned], internalAborted = False,
         externalAborted = False, firstError = None, calls = [0, 1, 2, 3, 4]\<rparr>"
    unfolding mapPool_example by simp
  then have facts: "2 \<in> set (calls st)" "Awaiting 2 \<notin> set (workers st)"
    by simp_all
  have "(2::nat) < length ?items" by simp
  with every have "2 \<in> set (calls st) \<and> Awaiting 2 \<notin> set (workers st) \<longrightarrow>
      ?res ! 2 = settled (?fn (?items ! 2) 2)"
    by blast
  with facts have "?res ! 2 = settled (?fn (?items ! 2) 2)" by blast
  with run show ?thesis by blast
qed

text \<open>
  The claim's wording of the limit fails on a concurrency between 0 and 1: with two items
  and a concurrency of one half the code starts two workers, where \<open>max(1, min(floor(0.5),
  2))\<close> is one.
\<close>

theorem workerLimit_counterexample:
  "workerLimit (Finite (1 / 2)) 2 = 2 \<and> specLimit (Finite (1 / 2)) 2 = 1"
  by (simp add: workerLimit_def specLimit_def specNormalized_def)

section \<open>A bounded map on a signal already aborted\<close>

lemma poolIdle_workerRun: "poolIdle n st \<Longrightarrow> workerRun n st = (st, Returned)"
  by (simp add: poolIdle_def workerRun_def)

lemma poolIdle_spawnWorkers: "poolIdle n st \<Longrightarrow> poolIdle n (spawnWorkers n k st)"
proof (induction k arbitrary: st)
  case 0
  then show ?case by simp
next
  case (Suc k)
  from Suc.prems have "poolIdle n (st\<lparr>workers := workers st @ [Returned]\<rparr>)"
    by (simp add: poolIdle_def)
  from Suc.IH [OF this] Suc.prems show ?case
    by (simp add: poolIdle_workerRun)
qed

lemma poolIdle_poolStep: "poolIdle n st \<Longrightarrow> poolStep fn items sig st ev = st"
proof (cases ev)
  case (Settle w)
  assume "poolIdle n st"
  then have "w < length (workers st) \<Longrightarrow> workers st ! w = Returned"
    by (simp add: poolIdle_def list_all_length)
  with Settle show ?thesis by (simp add: poolStep_def)
next
  case ExternalAbort
  assume "poolIdle n st"
  with ExternalAbort show ?thesis by (cases sig) (simp_all add: poolStep_def poolIdle_def)
next
  case Resume
  then show ?thesis by (simp add: poolStep_def)
qed

lemma poolIdle_runPool: "poolIdle n st \<Longrightarrow> runPool fn items sig st schedule = Some st"
proof (induction schedule)
  case Nil
  then show ?case by (simp add: resumeMap_def poolIdle_def)
next
  case (Cons ev evs)
  then show ?case by (simp add: poolIdle_poolStep)
qed

text \<open>
  Claim C10. For a list of items that is not empty and a signal already aborted at the
  call, whatever \<open>fn\<close>, the concurrency and the schedule: \<open>fn\<close> is called with no index, every
  entry of the results array is unset, and the call returns the results with
  \<open>aborted: true\<close>, not an error.
\<close>

theorem mapWithConcurrencyLimit_aborted_at_call:
  fixes fn :: "'a \<Rightarrow> nat \<Rightarrow> 'e + 'r"
  assumes "items \<noteq> []"
  shows "mapWithConcurrencyLimit items concurrency fn (Some True) schedule =
           Some (Inr (replicate (length items) None, True)) \<and>
         (\<exists>st. mapPool items concurrency fn (Some True) schedule = Some st \<and> calls st = [])"
proof -
  let ?st = "spawnWorkers (length items) (workerLimit concurrency (length items))
      (initPool (length items) (Some True)) :: ('e, 'r) Pool"
  have "poolIdle (length items) (initPool (length items) (Some True) :: ('e, 'r) Pool)"
    by (simp add: poolIdle_def initPool_def)
  then have idle: "poolIdle (length items) ?st"
    by (rule poolIdle_spawnWorkers)
  then have "mapPool items concurrency fn (Some True) schedule = Some ?st"
    by (simp add: mapPool_def poolIdle_runPool)
  with idle assms show ?thesis
    by (simp add: mapWithConcurrencyLimit_def resumeMap_def poolIdle_def)
qed

theorem mapWithConcurrencyLimit_aborted_at_call_witness:
  "[1, 2, 3 :: int] \<noteq> [] \<and>
   mapWithConcurrencyLimit [1, 2, 3 :: int] (Finite 4) (\<lambda>x i. Inr (2 * x) :: unit + int) (Some True)
      [Settle 0, Resume, Settle 1] = Some (Inr ([None, None, None], True))"
  using mapWithConcurrencyLimit_aborted_at_call
    [of "[1, 2, 3 :: int]" "Finite 4" "\<lambda>x i. Inr (2 * x) :: unit + int" "[Settle 0, Resume, Settle 1]"]
  by simp

section \<open>Properties of the race\<close>

text \<open>
  Claim C4 says that a parent token that has fired, before the call or while tasks are in
  flight, makes the call return \<open>{aborted: true}\<close> and never raise. In flight this fails: one
  task that throws when its signal has aborted, a parent signal that aborts before the task
  settles, and the call throws \<open>"All race tasks failed"\<close>.
\<close>

theorem raceWithAbort_inflight_counterexample:
  "parentAborted (foldl (raceStep
        [\<lparr>taskId = js ''a'', run = (\<lambda>aborted. if aborted then Inl (js ''Aborted'') else Inr (js ''ok''))\<rparr>]
        (Some False)) (initRace 1 :: jsstring RaceState) [ParentAbort]) \<and>
   raceWithAbort
     [\<lparr>taskId = js ''a'', run = (\<lambda>aborted. if aborted then Inl (js ''Aborted'') else Inr (js ''ok''))\<rparr>]
     (Some False) [ParentAbort, TaskSettles 0] = Some (Inl (js ''All race tasks failed''))"
  by (simp add: raceWithAbort_def raceStep_def initRace_def Let_def)

text \<open>
  Claim C4, as the code has it. When the parent token has already fired at the call of
  \<open>raceWithAbort\<close> with at least one task, the call returns \<open>{aborted: true}\<close> and raises
  nothing, whatever the tasks do.
\<close>

theorem raceWithAbort_aborted_at_call:
  "tasks \<noteq> [] \<Longrightarrow> raceWithAbort tasks (Some True) schedule = Some (Inr RaceAborted)"
  by (simp add: raceWithAbort_def)

theorem raceWithAbort_aborted_at_call_witness:
  "[\<lparr>taskId = js ''task1'', run = (\<lambda>aborted. Inr (js ''result'') :: jsstring + jsstring)\<rparr>] \<noteq> [] \<and>
   raceWithAbort [\<lparr>taskId = js ''task1'', run = (\<lambda>aborted. Inr (js ''result'') :: jsstring + jsstring)\<rparr>]
     (Some True) [TaskSettles 0] = Some (Inr RaceAborted)"
  using raceWithAbort_aborted_at_call
    [of "[\<lparr>taskId = js ''task1'', run = (\<lambda>aborted. Inr (js ''result'') :: jsstring + jsstring)\<rparr>]"
        "[TaskSettles 0]"]
  by simp

text \<open>
  After the check at the call the function has no path that returns \<open>{aborted: true}\<close>.
\<close>

lemma raceWithAbort_never_aborted_later:
  "parentSignal \<noteq> Some True \<Longrightarrow> raceWithAbort tasks parentSignal schedule \<noteq> Some (Inr RaceAborted)"
  by (auto simp: raceWithAbort_def Let_def split: option.splits)

text \<open>
  Claim C5. When every task errors, the call is to raise an aggregate error that includes
  each task's identifier and error. The code does otherwise: on the two failing tasks of the
  repository's own test the error raised is \<open>"All race tasks failed"\<close>, which holds no
  identifier and no error of a task, nor the text \<open>"All race models failed:"\<close> that the test
  expects.
\<close>

theorem raceWithAbort_all_fail:
  "raceWithAbort
     [\<lparr>taskId = js ''fail1'', run = (\<lambda>aborted. Inl (js ''fail 1'') :: jsstring + jsstring)\<rparr>,
      \<lparr>taskId = js ''fail2'', run = (\<lambda>aborted. Inl (js ''fail 2'') :: jsstring + jsstring)\<rparr>]
     None [TaskSettles 0, TaskSettles 1] = Some (Inl (js ''All race tasks failed'')) \<and>
   \<not> includes_js (js ''All race tasks failed'') (js ''fail1'') \<and>
   \<not> includes_js (js ''All race tasks failed'') (js ''fail 1'') \<and>
   \<not> includes_js (js ''All race tasks failed'') (js ''All race models failed:'')"
  by (simp add: raceWithAbort_def raceStep_def initRace_def Let_def js_def)

lemma raceWithAbort_error_messages:
  "raceWithAbort tasks parentSignal schedule = Some (Inl message) \<Longrightarrow>
     message = js ''No tasks to race'' \<or> message = js ''All race tasks failed''"
  by (auto simp: raceWithAbort_def Let_def split: if_splits option.splits)

section \<open>Properties of agent inheritance\<close>

lemma remdups_drop_seen: "x \<in> set zs \<Longrightarrow> remdups (ys @ x # zs) = remdups (ys @ zs)"
  by (induction ys) auto

lemma setSpreadFrom_remdups:
  "distinct seen \<Longrightarrow> setSpreadFrom seen xs = rev (remdups (rev (seen @ xs)))"
proof (induction xs arbitrary: seen)
  case Nil
  then show ?case by (simp add: distinct_remdups_id)
next
  case (Cons x xs)
  show ?case
  proof (cases "x \<in> set seen")
    case True
    then have "remdups (rev xs @ x # rev seen) = remdups (rev xs @ rev seen)"
      by (simp add: remdups_drop_seen)
    with True Cons show ?thesis by simp
  next
    case False
    with Cons.prems have "distinct (seen @ [x])" by simp
    from Cons.IH [OF this] False show ?thesis by simp
  qed
qed

lemma setSpread_remdups: "setSpread xs = rev (remdups (rev xs))"
  using setSpreadFrom_remdups [of "[]" xs] by (simp add: setSpread_def)

lemma setSpread_distinct: "distinct (setSpread xs)"
  by (simp add: setSpread_remdups)

lemma setSpread_set: "set (setSpread xs) = set xs"
  by (simp add: setSpread_remdups)

lemma agentMapFrom_index:
  "agentMapFrom k ns m n = Some i \<Longrightarrow>
     (m n = Some i \<and> n \<notin> set ns) \<or> (k \<le> i \<and> i < k + length ns \<and> ns ! (i - k) = n)"
proof (induction k ns m rule: agentMapFrom.induct)
  case (1 k m)
  then show ?case by simp
next
  case (2 k n' ns m)
  from "2.prems" have "agentMapFrom (Suc k) ns (m(n' \<mapsto> k)) n = Some i" by simp
  from "2.IH" [OF this] consider "(m(n' \<mapsto> k)) n = Some i \<and> n \<notin> set ns"
    | "Suc k \<le> i \<and> i < Suc k + length ns \<and> ns ! (i - Suc k) = n"
    by blast
  then show ?case
  proof cases
    case 1
    then show ?thesis by (auto split: if_splits)
  next
    case 2
    then show ?thesis by (auto simp: nth_Cons')
  qed
qed

lemma agentMap_index: "agentMap names n = Some i \<Longrightarrow> i < length names \<and> names ! i = n"
  using agentMapFrom_index [of 0 names Map.empty n i] by (simp add: agentMap_def)

lemma resolve_found: "resolve names st n path = Inr st' \<Longrightarrow> \<exists>i. agentMap names n = Some i"
  by (subst (asm) resolve.simps) (auto split: if_splits option.splits)

lemma inherit_inputs:
  "name (inherit b a) = name a \<and> tools (inherit b a) = tools a \<and> model (inherit b a) = model a \<and>
   thinking (inherit b a) = thinking a \<and> extends (inherit b a) = extends a"
  by (simp add: inherit_def Let_def)

lemma copyOwn_inputs:
  "name (copyOwn a) = name a \<and> tools (copyOwn a) = tools a \<and> model (copyOwn a) = model a \<and>
   thinking (copyOwn a) = thinking a \<and> extends (copyOwn a) = extends a"
  by (simp add: copyOwn_def Let_def split: option.splits)

lemma names_index:
  assumes "distinct (map name ags)" and "i < length ags" and "j < length ags"
    and "name (ags ! i) = name (ags ! j)"
  shows "i = j"
  using assms nth_eq_iff_index_eq [of "map name ags" i j] by simp

lemma resolveInvOn_update:
  assumes d: "distinct (map name ags)" and inv: "resolveInvOn ags s R" and i: "i < length ags"
    and fresh: "name (ags ! i) \<notin> R"
    and new: "resolvedAs ags (s[i := a]) (insert (name (ags ! i)) R) i"
  shows "resolveInvOn ags (s[i := a]) (insert (name (ags ! i)) R)"
  unfolding resolveInvOn_def
proof (intro conjI allI impI)
  from inv show "length (s[i := a]) = length ags" by (simp add: resolveInvOn_def)
next
  fix j assume j: "j < length ags"
  let ?R = "insert (name (ags ! i)) R"
  show "if name (ags ! j) \<in> ?R then resolvedAs ags (s[i := a]) ?R j else s[i := a] ! j = ags ! j"
  proof (cases "j = i")
    case True
    with new show ?thesis by simp
  next
    case False
    with names_index [OF d j i] have ne: "name (ags ! j) \<noteq> name (ags ! i)" by blast
    from inv j have old: "if name (ags ! j) \<in> R then resolvedAs ags s R j else s ! j = ags ! j"
      by (simp add: resolveInvOn_def)
    show ?thesis
    proof (cases "name (ags ! j) \<in> R")
      case in_R: True
      with old have r: "resolvedAs ags s R j" by simp
      have "resolvedAs ags (s[i := a]) ?R j"
      proof (cases "truthyStr (extends (ags ! j))")
        case no_base: False
        with r False show ?thesis by (simp add: resolvedAs_def)
      next
        case has_base: True
        with r obtain b where b: "agentMap (map name ags) (the (extends (ags ! j))) = Some b"
          "name (ags ! b) \<in> R" "s ! j = inherit (s ! b) (ags ! j)"
          by (auto simp: resolvedAs_def split: option.splits)
        from b(2) fresh have "b \<noteq> i" by auto
        with b has_base False show ?thesis by (simp add: resolvedAs_def)
      qed
      with in_R show ?thesis by simp
    next
      case out: False
      with old ne False show ?thesis by simp
    qed
  qed
qed

lemma resolve_inv:
  assumes d: "distinct (map name ags)"
  shows "names = map name ags \<Longrightarrow> resolveInv ags st \<Longrightarrow> resolve names st n path = Inr st' \<Longrightarrow>
     resolveInv ags st' \<and> resolved st \<subseteq> resolved st' \<and> n \<in> resolved st' \<and>
     (\<forall>x \<in> set path. x \<in> resolved st' \<longrightarrow> x \<in> resolved st) \<and>
     (\<forall>j < length ags. name (ags ! j) \<in> resolved st \<longrightarrow> store st' ! j = store st ! j)"
proof (induction names st n path arbitrary: st' rule: resolve.induct)
  case (1 names st n path)
  note names = "1.prems"(1) and inv = "1.prems"(2) and run = "1.prems"(3)
  from run have fresh: "n \<notin> set path"
    by (subst (asm) resolve.simps) (auto split: if_splits)
  from resolve_found [OF run] obtain i where found: "agentMap names n = Some i" by blast
  from agentMap_index [OF found] names have i: "i < length ags" "name (ags ! i) = n" by auto
  show ?case
  proof (cases "n \<in> resolved st")
    case True
    with run fresh found have "st' = st"
      by (subst (asm) resolve.simps) simp
    with inv True show ?thesis by simp
  next
    case unresolved: False
    from run fresh found unresolved have unvisited: "n \<notin> visited st"
      by (subst (asm) resolve.simps) (auto split: if_splits)
    from inv i unresolved have same: "store st ! i = ags ! i" and len: "length (store st) = length ags"
      by (simp_all add: resolveInv_def resolveInvOn_def)
    let ?st1 = "st\<lparr>visited := insert n (visited st)\<rparr>"
    show ?thesis
    proof (cases "truthyStr (extends (store st ! i))")
      case no_base: False
      with run fresh found unresolved unvisited have st': "st' = markResolved n (applyOwn i ?st1)"
        by (subst (asm) resolve.simps) simp
      then have s: "store st' = (store st)[i := copyOwn (ags ! i)]" "resolved st' = insert n (resolved st)"
        by (simp_all add: markResolved_def applyOwn_def same)
      from no_base same i len have "resolvedAs ags ((store st)[i := copyOwn (ags ! i)])
          (insert (name (ags ! i)) (resolved st)) i"
        by (simp add: resolvedAs_def)
      with resolveInvOn_update [OF d _ i(1), of "store st" "resolved st" "copyOwn (ags ! i)"]
        inv unresolved i(2)
      have "resolveInvOn ags ((store st)[i := copyOwn (ags ! i)]) (insert (name (ags ! i)) (resolved st))"
        by (simp add: resolveInv_def)
      with s i(2) have "resolveInv ags st'" by (simp add: resolveInv_def)
      moreover have "\<forall>j < length ags. name (ags ! j) \<in> resolved st \<longrightarrow> store st' ! j = store st ! j"
      proof (intro allI impI)
        fix j assume "j < length ags" and "name (ags ! j) \<in> resolved st"
        with unresolved i(2) have "j \<noteq> i" by auto
        with s(1) show "store st' ! j = store st ! j" by simp
      qed
      ultimately show ?thesis using s(2) fresh by auto
    next
      case has_base: True
      let ?bn = "the (extends (store st ! i))"
      from run fresh found unresolved unvisited has_base obtain st2 where
        rec: "resolve names ?st1 ?bn (path @ [n]) = Inr st2"
        and st': "st' = markResolved n (applyBase names i st2)"
        by (subst (asm) resolve.simps) (auto split: sum.splits)
      from inv have inv1: "resolveInv ags ?st1" by (simp add: resolveInv_def)
      from "1.IH" [OF fresh found unresolved unvisited has_base names inv1 rec]
      have inv2: "resolveInv ags st2" and mono: "resolved st \<subseteq> resolved st2"
        and base_done: "?bn \<in> resolved st2"
        and path2: "\<forall>x \<in> set (path @ [n]). x \<in> resolved st2 \<longrightarrow> x \<in> resolved st"
        and frame2: "\<forall>j < length ags. name (ags ! j) \<in> resolved st \<longrightarrow> store st2 ! j = store st ! j"
        by simp_all
      from path2 unresolved have unresolved2: "n \<notin> resolved st2" by auto
      with inv2 i have same2: "store st2 ! i = ags ! i" and len2: "length (store st2) = length ags"
        by (simp_all add: resolveInv_def resolveInvOn_def)
      from resolve_found [OF rec] obtain b where b: "agentMap names ?bn = Some b" by blast
      from agentMap_index [OF b] names have bi: "b < length ags" "name (ags ! b) = ?bn" by auto
      from bi(2) base_done unresolved2 i(2) have "b \<noteq> i" by auto
      let ?a = "inherit (store st2 ! b) (ags ! i)"
      from st' b same same2 have s: "store st' = (store st2)[i := ?a]"
        "resolved st' = insert n (resolved st2)"
        by (simp_all add: markResolved_def applyBase_def)
      from has_base same b names bi base_done i len2 \<open>b \<noteq> i\<close>
      have "resolvedAs ags ((store st2)[i := ?a]) (insert (name (ags ! i)) (resolved st2)) i"
        by (simp add: resolvedAs_def)
      with resolveInvOn_update [OF d _ i(1), of "store st2" "resolved st2" ?a] inv2 unresolved2 i(2)
      have "resolveInvOn ags ((store st2)[i := ?a]) (insert (name (ags ! i)) (resolved st2))"
        by (simp add: resolveInv_def)
      with s i(2) have "resolveInv ags st'" by (simp add: resolveInv_def)
      moreover have "\<forall>j < length ags. name (ags ! j) \<in> resolved st \<longrightarrow> store st' ! j = store st ! j"
      proof (intro allI impI)
        fix j assume j: "j < length ags" "name (ags ! j) \<in> resolved st"
        with unresolved i(2) have "j \<noteq> i" by auto
        with s(1) frame2 j show "store st' ! j = store st ! j" by simp
      qed
      moreover have "\<forall>x \<in> set path. x \<in> resolved st' \<longrightarrow> x \<in> resolved st"
        using s(2) path2 fresh by auto
      ultimately show ?thesis using s(2) mono by auto
    qed
  qed
qed

lemma resolveAll_inv:
  assumes d: "distinct (map name ags)"
  shows "resolveInv ags st \<Longrightarrow> resolveAll (map name ags) st ns = Inr st' \<Longrightarrow>
     resolveInv ags st' \<and> resolved st \<subseteq> resolved st' \<and> set ns \<subseteq> resolved st'"
proof (induction ns arbitrary: st)
  case Nil
  then show ?case by simp
next
  case (Cons n ns)
  show ?case
  proof (cases "n \<in> resolved st")
    case True
    with Cons.prems have "resolveAll (map name ags) st ns = Inr st'" by simp
    from Cons.IH [OF Cons.prems(1) this] True show ?thesis by auto
  next
    case False
    with Cons.prems obtain st1 where one: "resolve (map name ags) st n [] = Inr st1"
      and rest: "resolveAll (map name ags) st1 ns = Inr st'"
      by (auto split: sum.splits)
    from resolve_inv [OF d refl Cons.prems(1) one]
    have inv1: "resolveInv ags st1" and mono: "resolved st \<subseteq> resolved st1" and n: "n \<in> resolved st1"
      by simp_all
    from Cons.IH [OF inv1 rest] mono n show ?thesis by auto
  qed
qed

lemma resolveAgentInheritance_inv:
  assumes "resolveAgentInheritance agents = Inr agents'" and d: "distinct (map name agents)"
  shows "\<exists>R. resolveInvOn agents agents' R \<and> set (map name agents) \<subseteq> R"
proof -
  let ?st0 = "\<lparr>store = agents, visited = {}, resolved = {}\<rparr>"
  from assms(1) obtain st where run: "resolveAll (map name agents) ?st0 (map name agents) = Inr st"
    and out: "agents' = store st"
    by (auto simp: resolveAgentInheritance_def split: sum.splits)
  have "resolveInv agents ?st0"
    by (simp add: resolveInv_def resolveInvOn_def)
  from resolveAll_inv [OF d this run] out show ?thesis
    by (auto simp: resolveInv_def)
qed

lemma inherit_fields:
  "resolvedTools (inherit b a) =
     (if setSpread (baseToolsOf b @ ownToolsOf a) = [] then resolvedTools a
      else Some (setSpread (baseToolsOf b @ ownToolsOf a))) \<and>
   resolvedModel (inherit b a) = orStr (orStr (model a) (resolvedModel b)) (model b) \<and>
   (\<not> truthyThinking (thinking a) \<longrightarrow>
      resolvedThinking (inherit b a) =
        (case resolvedThinking b of Some t \<Rightarrow> Some t | None \<Rightarrow> thinking b))"
  by (simp add: inherit_def baseToolsOf_def ownToolsOf_def Let_def)

text \<open>
  Claim C7, as the code has it. For a list of agents with distinct names that resolves
  without error, every agent with a base gets: \<open>resolvedTools\<close> set to the union of the base's
  \<open>resolvedTools\<close> (or \<open>tools\<close>) with its own \<open>tools\<close>, without duplicates and in the order of
  first occurrence, when that union is not empty, and left as it was otherwise;
  \<open>resolvedModel\<close> set to its own \<open>model\<close>, else the base's \<open>resolvedModel\<close>, else the base's
  \<open>model\<close>; and, when it has no \<open>thinking\<close> of its own, \<open>resolvedThinking\<close> set to the base's
  \<open>resolvedThinking\<close>, else the base's \<open>thinking\<close>. The base is the agent of that name as
  returned.
\<close>

theorem resolveAgentInheritance_inherits:
  assumes "resolveAgentInheritance agents = Inr agents'"
    and "distinct (map name agents)"
    and "i < length agents"
    and "truthyStr (extends (agents ! i))"
  shows "\<exists>b < length agents. name (agents ! b) = the (extends (agents ! i)) \<and>
    (let agent = agents ! i; baseAgent = agents' ! b;
         combined = setSpread (baseToolsOf baseAgent @ ownToolsOf agent)
     in resolvedTools (agents' ! i) = (if combined = [] then resolvedTools agent else Some combined) \<and>
        combined = rev (remdups (rev (baseToolsOf baseAgent @ ownToolsOf agent))) \<and>
        distinct combined \<and>
        set combined = set (baseToolsOf baseAgent) \<union> set (ownToolsOf agent) \<and>
        resolvedModel (agents' ! i) =
          orStr (orStr (model agent) (resolvedModel baseAgent)) (model baseAgent) \<and>
        (\<not> truthyThinking (thinking agent) \<longrightarrow>
           resolvedThinking (agents' ! i) =
             (case resolvedThinking baseAgent of Some t \<Rightarrow> Some t | None \<Rightarrow> thinking baseAgent)))"
proof -
  from resolveAgentInheritance_inv [OF assms(1,2)] obtain R where
    inv: "resolveInvOn agents agents' R" and all: "set (map name agents) \<subseteq> R"
    by blast
  from all assms(3) have "name (agents ! i) \<in> R" by auto
  with inv assms(3) have "resolvedAs agents agents' R i"
    by (simp add: resolveInvOn_def)
  with assms(4) obtain b where b: "agentMap (map name agents) (the (extends (agents ! i))) = Some b"
    and eq: "agents' ! i = inherit (agents' ! b) (agents ! i)"
    by (auto simp: resolvedAs_def split: option.splits)
  from agentMap_index [OF b] have bi: "b < length agents" "name (agents ! b) = the (extends (agents ! i))"
    by auto
  note f = inherit_fields [of "agents' ! b" "agents ! i"]
  have "resolvedTools (agents' ! i) =
      (if setSpread (baseToolsOf (agents' ! b) @ ownToolsOf (agents ! i)) = [] then resolvedTools (agents ! i)
       else Some (setSpread (baseToolsOf (agents' ! b) @ ownToolsOf (agents ! i))))"
    using f eq by simp
  moreover have "resolvedModel (agents' ! i) =
      orStr (orStr (model (agents ! i)) (resolvedModel (agents' ! b))) (model (agents' ! b))"
    using f eq by simp
  moreover have "\<not> truthyThinking (thinking (agents ! i)) \<longrightarrow>
      resolvedThinking (agents' ! i) =
        (case resolvedThinking (agents' ! b) of Some t \<Rightarrow> Some t | None \<Rightarrow> thinking (agents' ! b))"
    using f eq by simp
  ultimately have "name (agents ! b) = the (extends (agents ! i)) \<and>
    (let agent = agents ! i; baseAgent = agents' ! b;
         combined = setSpread (baseToolsOf baseAgent @ ownToolsOf agent)
     in resolvedTools (agents' ! i) = (if combined = [] then resolvedTools agent else Some combined) \<and>
        combined = rev (remdups (rev (baseToolsOf baseAgent @ ownToolsOf agent))) \<and>
        distinct combined \<and>
        set combined = set (baseToolsOf baseAgent) \<union> set (ownToolsOf agent) \<and>
        resolvedModel (agents' ! i) =
          orStr (orStr (model agent) (resolvedModel baseAgent)) (model baseAgent) \<and>
        (\<not> truthyThinking (thinking agent) \<longrightarrow>
           resolvedThinking (agents' ! i) =
             (case resolvedThinking baseAgent of Some t \<Rightarrow> Some t | None \<Rightarrow> thinking baseAgent)))"
    using bi(2) setSpread_remdups [of "baseToolsOf (agents' ! b) @ ownToolsOf (agents ! i)"]
      setSpread_distinct [of "baseToolsOf (agents' ! b) @ ownToolsOf (agents ! i)"]
      setSpread_set [of "baseToolsOf (agents' ! b) @ ownToolsOf (agents ! i)"]
    by (simp only: Let_def) simp
  with bi(1) show ?thesis by blast
qed

lemma resolve_example:
  "resolveAgentInheritance
     [\<lparr>name = js ''child'', tools = Some [js ''bash'', js ''read''], model = None, thinking = None,
       extends = Some (js ''base''), resolvedTools = None, resolvedModel = None,
       resolvedThinking = None\<rparr>,
      \<lparr>name = js ''base'', tools = Some [js ''read'', js ''grep''], model = Some (js ''m1''),
       thinking = Some (ThinkingLabel (js ''low'')), extends = None, resolvedTools = None,
       resolvedModel = None, resolvedThinking = None\<rparr>] =
   Inr [\<lparr>name = js ''child'', tools = Some [js ''bash'', js ''read''], model = None, thinking = None,
       extends = Some (js ''base''), resolvedTools = Some [js ''read'', js ''grep'', js ''bash''],
       resolvedModel = Some (js ''m1''), resolvedThinking = Some (ThinkingLabel (js ''low''))\<rparr>,
      \<lparr>name = js ''base'', tools = Some [js ''read'', js ''grep''], model = Some (js ''m1''),
       thinking = Some (ThinkingLabel (js ''low'')), extends = None,
       resolvedTools = Some [js ''read'', js ''grep''], resolvedModel = Some (js ''m1''),
       resolvedThinking = Some (ThinkingLabel (js ''low''))\<rparr>]"
  by code_simp

theorem resolveAgentInheritance_inherits_witness:
  "distinct (map name
     [\<lparr>name = js ''child'', tools = Some [js ''bash'', js ''read''], model = None, thinking = None,
       extends = Some (js ''base''), resolvedTools = None, resolvedModel = None,
       resolvedThinking = None\<rparr>,
      \<lparr>name = js ''base'', tools = Some [js ''read'', js ''grep''], model = Some (js ''m1''),
       thinking = Some (ThinkingLabel (js ''low'')), extends = None, resolvedTools = None,
       resolvedModel = None, resolvedThinking = None\<rparr>]) \<and>
   (\<exists>agents'. resolveAgentInheritance
     [\<lparr>name = js ''child'', tools = Some [js ''bash'', js ''read''], model = None, thinking = None,
       extends = Some (js ''base''), resolvedTools = None, resolvedModel = None,
       resolvedThinking = None\<rparr>,
      \<lparr>name = js ''base'', tools = Some [js ''read'', js ''grep''], model = Some (js ''m1''),
       thinking = Some (ThinkingLabel (js ''low'')), extends = None, resolvedTools = None,
       resolvedModel = None, resolvedThinking = None\<rparr>] = Inr agents' \<and>
      resolvedTools (agents' ! 0) = Some [js ''read'', js ''grep'', js ''bash''] \<and>
      resolvedModel (agents' ! 0) = Some (js ''m1'') \<and>
      resolvedThinking (agents' ! 0) = Some (ThinkingLabel (js ''low'')))"
proof -
  let ?child = "\<lparr>name = js ''child'', tools = Some [js ''bash'', js ''read''], model = None, thinking = None,
       extends = Some (js ''base''), resolvedTools = None, resolvedModel = None,
       resolvedThinking = None\<rparr>"
  let ?base = "\<lparr>name = js ''base'', tools = Some [js ''read'', js ''grep''], model = Some (js ''m1''),
       thinking = Some (ThinkingLabel (js ''low'')), extends = None, resolvedTools = None,
       resolvedModel = None, resolvedThinking = None\<rparr>"
  let ?base' = "\<lparr>name = js ''base'', tools = Some [js ''read'', js ''grep''], model = Some (js ''m1''),
       thinking = Some (ThinkingLabel (js ''low'')), extends = None,
       resolvedTools = Some [js ''read'', js ''grep''], resolvedModel = Some (js ''m1''),
       resolvedThinking = Some (ThinkingLabel (js ''low''))\<rparr>"
  obtain agents' where run: "resolveAgentInheritance [?child, ?base] = Inr agents'"
    and base': "agents' ! 1 = ?base'"
    using resolve_example by simp
  have d: "distinct (map name [?child, ?base])" by (simp add: js_def)
  have i: "(0::nat) < length [?child, ?base]" by simp
  have e: "truthyStr (extends ([?child, ?base] ! 0))" by (simp add: truthyStr_def js_def)
  from resolveAgentInheritance_inherits [OF run d i e] obtain b where
    b: "b < length [?child, ?base]" "name ([?child, ?base] ! b) = the (extends ([?child, ?base] ! 0))"
    and t: "resolvedTools (agents' ! 0) =
        (if setSpread (baseToolsOf (agents' ! b) @ ownToolsOf ([?child, ?base] ! 0)) = []
         then resolvedTools ([?child, ?base] ! 0)
         else Some (setSpread (baseToolsOf (agents' ! b) @ ownToolsOf ([?child, ?base] ! 0))))"
    and m: "resolvedModel (agents' ! 0) =
        orStr (orStr (model ([?child, ?base] ! 0)) (resolvedModel (agents' ! b))) (model (agents' ! b))"
    and k: "\<not> truthyThinking (thinking ([?child, ?base] ! 0)) \<longrightarrow>
        resolvedThinking (agents' ! 0) =
          (case resolvedThinking (agents' ! b) of Some t \<Rightarrow> Some t | None \<Rightarrow> thinking (agents' ! b))"
    unfolding Let_def by blast
  from b have "b = 1"
    by (cases b) (simp_all add: js_def)
  with t m k base' have "resolvedTools (agents' ! 0) = Some [js ''read'', js ''grep'', js ''bash''] \<and>
      resolvedModel (agents' ! 0) = Some (js ''m1'') \<and>
      resolvedThinking (agents' ! 0) = Some (ThinkingLabel (js ''low''))"
    by (simp add: baseToolsOf_def ownToolsOf_def setSpread_def orStr_def truthyStr_def
        truthyThinking_def js_def)
  with run d show ?thesis by blast
qed

text \<open>
  The claim as it is worded fails on a child without tools that has a \<open>thinking\<close> of its
  own, under a base without tools: the union of the tools is empty and \<open>resolvedTools\<close> is
  not set, and \<open>resolvedThinking\<close> is not set to the child's \<open>thinking\<close> either.
\<close>

theorem resolveAgentInheritance_counterexample:
  "resolveAgentInheritance
     [\<lparr>name = js ''child'', tools = None, model = None,
       thinking = Some (ThinkingLabel (js ''high'')), extends = Some (js ''base''),
       resolvedTools = None, resolvedModel = None, resolvedThinking = None\<rparr>,
      \<lparr>name = js ''base'', tools = None, model = None,
       thinking = Some (ThinkingLabel (js ''low'')), extends = None,
       resolvedTools = None, resolvedModel = None, resolvedThinking = None\<rparr>] =
   Inr [\<lparr>name = js ''child'', tools = None, model = None,
       thinking = Some (ThinkingLabel (js ''high'')), extends = Some (js ''base''),
       resolvedTools = None, resolvedModel = None, resolvedThinking = None\<rparr>,
      \<lparr>name = js ''base'', tools = None, model = None,
       thinking = Some (ThinkingLabel (js ''low'')), extends = None,
       resolvedTools = None, resolvedModel = None,
       resolvedThinking = Some (ThinkingLabel (js ''low''))\<rparr>]"
  by code_simp

end
